theory Spec2Isabelle
  imports Main "HOL-Library.Word" "HOL-Library.Multiset"
begin

unbundle bit_operations_syntax

section \<open>Data model of \<open>src/stackify.ts\<close>\<close>

text \<open>
  The block is a list of instructions. An instruction has a kind and a list of
  arguments; an argument \<open>arg \<ge> 0\<close> is the index of an instruction, an argument
  \<open>arg < 0\<close> stands for the constant \<open>~arg\<close>. The arguments are JavaScript numbers;
  the model takes the integers among them.
\<close>

datatype InsKind = Add | LocalSet | LocalGet

record Ins =
  kind :: InsKind
  args :: "int list"

text \<open>
  A child of a tree is a number (a constant), a string \<open>tree<arg>\<close> (the name of
  another tree, kept here as the number \<open>arg\<close> that the string prints), or a tree.
\<close>

datatype child = CNum int | CName int | CTree tree
  and tree = Tree InsKind "child list"

text \<open>
  The emitted code is a list of strings built from five templates. The templates
  begin with five different words and print one integer in decimal, so two such strings
  are equal exactly when they come from the same template with the same integer: the
  model keeps the template and the integer.
\<close>

datatype wasm_op = I32Add | GetLocal int | SetLocal int | TeeLocal int | I32Const int

text \<open>
  The exceptions of the code: the \<open>TypeError\<close> of reading \<open>.args\<close> or \<open>.kind\<close> of
  \<open>block[index]\<close> when that is \<open>undefined\<close>, and the \<open>RangeError\<close> of \<open>uses.push(0)\<close>
  on an array that has the greatest length an array can have.
\<close>

datatype error = TypeError | RangeError

text \<open>
  JavaScript's \<open>~x\<close> takes \<open>x\<close> to a signed 32-bit integer and complements its bits.
  \<open>~undefined\<close> is \<open>-1\<close>.
\<close>

definition bitnot :: "int \<Rightarrow> int" where
  "bitnot a = sint (NOT (word_of_int a :: 32 word))"

definition bitnot_first :: "int list \<Rightarrow> int" where
  "bitnot_first as = (case as of [] \<Rightarrow> - 1 | a # _ \<Rightarrow> bitnot a)"

section \<open>Counting the uses\<close>

text \<open>
  A cell of the array \<open>uses\<close> holds a number, \<open>NaN\<close>, or nothing (a hole, read as
  \<open>undefined\<close>). The elements of a JavaScript array have the indices \<open>0\<close> to
  \<open>2\<^sup>3\<^sup>2 - 2\<close>, so that its length is at most \<open>2\<^sup>3\<^sup>2 - 1\<close>.
\<close>

datatype cell = Hole | NaN | Num nat

definition max_length :: nat where
  "max_length = 4294967295"

fun incr :: "cell \<Rightarrow> cell" where
  "incr (Num n) = Num (Suc n)"
| "incr NaN = NaN"
| "incr Hole = NaN"

text \<open>
  \<open>uses[arg]++\<close> for \<open>arg \<ge> 0\<close> adds one to a number and turns anything else into \<open>NaN\<close>.
  At an index beyond the end of the array it first extends the array with holes, up to
  the index \<open>2\<^sup>3\<^sup>2 - 2\<close>. A greater \<open>arg\<close> is no index of an array: the assignment sets
  the property of that name to \<open>NaN\<close> and leaves the elements and the length as they are.
  Such a property is never a number, and the code reads \<open>uses[arg]\<close> only to compare it
  with \<open>1\<close>, so the model does not keep it.
\<close>

definition bump :: "cell list \<Rightarrow> nat \<Rightarrow> cell list" where
  "bump uses a =
     (if a < length uses then uses[a := incr (uses ! a)]
      else if a < max_length then uses @ replicate (a - length uses) Hole @ [NaN]
      else uses)"

fun countArgs :: "int list \<Rightarrow> cell list \<Rightarrow> cell list" where
  "countArgs [] uses = uses"
| "countArgs (arg # rest) uses =
     countArgs rest (if arg \<ge> 0 then bump uses (nat arg) else uses)"

text \<open>
  The counting loop. \<open>uses.push(0)\<close> on an array of length \<open>2\<^sup>3\<^sup>2 - 1\<close> throws a
  \<open>RangeError\<close>, which ends \<open>stackify\<close>.
\<close>

fun countUses :: "Ins list \<Rightarrow> cell list \<Rightarrow> error + cell list" where
  "countUses [] uses = Inr uses"
| "countUses (ins # rest) uses =
     (if length uses < max_length then countUses rest (countArgs (args ins) (uses @ [Num 0]))
      else Inl RangeError)"

text \<open>
  The test \<open>uses[arg] === 1\<close>. It is false beyond the end of the array, where
  \<open>uses[arg]\<close> is \<open>undefined\<close> or a property that holds \<open>NaN\<close>.
\<close>

definition used_once :: "cell list \<Rightarrow> nat \<Rightarrow> bool" where
  "used_once uses a = (a < length uses \<and> uses ! a = Num 1)"

section \<open>Recovering the trees\<close>

text \<open>
  \<open>recoverTree\<close> reads the variable \<open>index\<close> and moves it down; the model takes the
  index and returns the new one with the tree and the flag \<open>stopped\<close>. \<open>recoverArgs\<close>
  is the loop over the arguments from the last to the first: it takes the arguments
  still to do in that order, the children so far and the flag.
\<close>

function recoverTree :: "Ins list \<Rightarrow> cell list \<Rightarrow> nat \<Rightarrow> error + (tree \<times> bool \<times> nat)"
  and recoverArgs :: "Ins list \<Rightarrow> cell list \<Rightarrow> int list \<Rightarrow> nat \<Rightarrow> child list \<Rightarrow> bool
      \<Rightarrow> error + (child list \<times> bool \<times> nat)"
where
  "recoverTree block uses index =
     (if index < length block then
        (case recoverArgs block uses (rev (args (block ! index))) index [] False of
           Inl e \<Rightarrow> Inl e
         | Inr (children, stopped, index') \<Rightarrow>
             Inr (Tree (kind (block ! index)) children, stopped, index'))
      else Inl TypeError)"
| "recoverArgs block uses [] index children stopped = Inr (children, stopped, index)"
| "recoverArgs block uses (arg # rest) index children stopped =
     (if arg < 0 then
        recoverArgs block uses rest index (CNum (bitnot arg) # children) stopped
      else if used_once uses (nat arg) \<and> arg = int index - 1 \<and> \<not> stopped then
        (case recoverTree block uses (index - 1) of
           Inl e \<Rightarrow> Inl e
         | Inr (childTree, childStopped, index') \<Rightarrow>
             recoverArgs block uses rest index' (CTree childTree # children)
               (if childStopped then True else stopped))
      else recoverArgs block uses rest index (CName arg # children) True)"
  by pat_completeness auto

lemma recover_index_le:
  "recoverTree_recoverArgs_dom (Inl (block, uses, index)) \<Longrightarrow>
     recoverTree block uses index = Inr (t, s, i') \<Longrightarrow> i' \<le> index"
  "recoverTree_recoverArgs_dom (Inr (block, uses, as, index, cs, stopped)) \<Longrightarrow>
     recoverArgs block uses as index cs stopped = Inr (cs', s', i'') \<Longrightarrow> i'' \<le> index"
proof (induction block uses index and block uses as index cs stopped
    arbitrary: t s i' and cs' s' i'' rule: recoverTree_recoverArgs.pinduct)
  case (1 block uses index)
  then show ?case
    by (auto simp: recoverTree.psimps split: if_splits sum.splits)
next
  case (2 block uses index children stopped)
  then show ?case
    by (simp add: recoverArgs.psimps)
next
  case (3 block uses arg rest index children stopped)
  note eq = recoverArgs.psimps(2)[OF 3(1)]
  note res = 3(6)
  show ?case
  proof (cases "arg < 0")
    case True
    with res eq have "recoverArgs block uses rest index (CNum (bitnot arg) # children) stopped
        = Inr (cs', s', i'')" by simp
    from 3(2)[OF True this] show ?thesis .
  next
    case neg: False
    show ?thesis
    proof (cases "used_once uses (nat arg) \<and> arg = int index - 1 \<and> \<not> stopped")
      case False
      with neg res eq have "recoverArgs block uses rest index (CName arg # children) True
        = Inr (cs', s', i'')" by auto
      from 3(5)[OF neg False this] show ?thesis .
    next
      case True
      with neg res eq obtain ct cst ci where
        r: "recoverTree block uses (index - 1) = Inr (ct, cst, ci)" and
        a: "recoverArgs block uses rest ci (CTree ct # children) (if cst then True else stopped)
              = Inr (cs', s', i'')"
        by (simp split: sum.splits prod.splits)
      from 3(3)[OF neg True r] have "ci \<le> index - 1" .
      moreover from 3(4)[OF neg True r refl refl a] have "i'' \<le> ci" .
      ultimately show ?thesis by simp
    qed
  qed
qed

lemma recover_total: "All recoverTree_recoverArgs_dom"
proof (relation "measures [
    (\<lambda>x. case x of Inl (b, u, i) \<Rightarrow> i | Inr (b, u, as, i, cs, s) \<Rightarrow> i),
    (\<lambda>x. case x of Inl _ \<Rightarrow> 1 | Inr _ \<Rightarrow> 0),
    (\<lambda>x. case x of Inl _ \<Rightarrow> 0 | Inr (b, u, as, i, cs, s) \<Rightarrow> length as)]",
    goal_cases)
  case 1
  then show ?case by simp
next
  case (2 block uses index)
  then show ?case by simp
next
  case (3 block uses arg rest index children stopped)
  then show ?case by simp
next
  case (4 block uses arg rest index children stopped)
  then show ?case by simp
next
  case (5 block uses arg rest index children stopped x2 x y xa ya)
  then have "ya \<le> index - 1"
    using recover_index_le(1) by blast
  moreover from 5 have "0 < index" by simp
  ultimately have "ya < index" by arith
  then show ?case by simp
next
  case (6 block uses arg rest index children stopped)
  then show ?case by simp
qed

termination recoverTree
  by (rule recover_total)

declare recoverTree.simps [simp del]

lemma recoverTree_index_le:
  "recoverTree block uses index = Inr (t, s, i') \<Longrightarrow> i' \<le> index"
  using recover_index_le(1) recover_total by blast


text \<open>
  The loop \<open>while (index > 0) { index--; trees.unshift([index, recoverTree()[0]]); }\<close>.
  The pair is built from left to right, so its first component is the index before
  \<open>recoverTree\<close> moves it.
\<close>

function recoverLoop :: "Ins list \<Rightarrow> cell list \<Rightarrow> nat \<Rightarrow> (nat \<times> tree) list
    \<Rightarrow> error + (nat \<times> tree) list"
where
  "recoverLoop block uses index trees =
     (if index > 0 then
        (case recoverTree block uses (index - 1) of
           Inl e \<Rightarrow> Inl e
         | Inr (t, stopped, index') \<Rightarrow> recoverLoop block uses index' ((index - 1, t) # trees))
      else Inr trees)"
  by pat_completeness auto

termination
proof (relation "measure (\<lambda>(block, uses, index, trees). index)", goal_cases)
  case 1
  then show ?case by simp
next
  case (2 block uses index trees x2 x y xa ya)
  then have "ya \<le> index - 1"
    by (auto dest: recoverTree_index_le)
  with 2 show ?case by auto
qed

section \<open>Emitting the stack code\<close>

text \<open>
  The state of the emitter: the code so far, the map \<open>locals\<close> and the counter
  \<open>nextLocal\<close>.
\<close>

record emit_state =
  wasmCode :: "wasm_op list"
  locals :: "nat \<rightharpoonup> nat"
  nextLocal :: nat

definition unshift :: "wasm_op \<Rightarrow> emit_state \<Rightarrow> emit_state" where
  "unshift c st = st\<lparr>wasmCode := c # wasmCode st\<rparr>"

definition makeLocal :: "nat \<Rightarrow> emit_state \<Rightarrow> nat \<times> emit_state" where
  "makeLocal index st =
     (case locals st index of
        None \<Rightarrow> (nextLocal st,
                 st\<lparr>locals := (locals st)(index \<mapsto> nextLocal st), nextLocal := nextLocal st + 1\<rparr>)
      | Some local \<Rightarrow> (local, st))"

text \<open>The \<open>switch\<close> of \<open>visit\<close>: the instruction's own operation and \<open>lower\<close>.\<close>

definition own_op :: "Ins \<Rightarrow> wasm_op" where
  "own_op ins =
     (case kind ins of
        Add \<Rightarrow> I32Add
      | LocalGet \<Rightarrow> GetLocal (bitnot_first (args ins))
      | LocalSet \<Rightarrow> SetLocal (bitnot_first (args ins)))"

definition lower :: "Ins \<Rightarrow> nat" where
  "lower ins = (case kind ins of Add \<Rightarrow> 0 | LocalGet \<Rightarrow> 1 | LocalSet \<Rightarrow> 1)"

text \<open>
  \<open>visit\<close> with its loop \<open>visitArgs\<close> over the arguments from the last down to
  \<open>lower\<close>. The variable \<open>stopped\<close> of \<open>visit\<close> is never read or written after its
  declaration, so the model has none.
\<close>

function visit :: "Ins list \<Rightarrow> cell list \<Rightarrow> nat \<Rightarrow> emit_state \<Rightarrow> error + (nat \<times> emit_state)"
  and visitArgs :: "Ins list \<Rightarrow> cell list \<Rightarrow> int list \<Rightarrow> nat \<Rightarrow> emit_state
      \<Rightarrow> error + (nat \<times> emit_state)"
where
  "visit block uses index st =
     (if index < length block then
        visitArgs block uses (rev (drop (lower (block ! index)) (args (block ! index)))) index
          (unshift (own_op (block ! index)) st)
      else Inl TypeError)"
| "visitArgs block uses [] index st = Inr (index, st)"
| "visitArgs block uses (arg # rest) index st =
     (if arg < 0 then
        visitArgs block uses rest index (unshift (I32Const (bitnot arg)) st)
      else if used_once uses (nat arg) \<and> arg = int index - 1 then
        (case visit block uses (index - 1) st of
           Inl e \<Rightarrow> Inl e
         | Inr (index', st') \<Rightarrow> visitArgs block uses rest index' st')
      else
        (case makeLocal (nat arg) st of
           (local, st') \<Rightarrow> visitArgs block uses rest index (unshift (GetLocal (int local)) st')))"
  by pat_completeness auto

lemma visit_index_le:
  "visit_visitArgs_dom (Inl (block, uses, index, st)) \<Longrightarrow>
     visit block uses index st = Inr (i', st') \<Longrightarrow> i' \<le> index"
  "visit_visitArgs_dom (Inr (block, uses, as, index, st)) \<Longrightarrow>
     visitArgs block uses as index st = Inr (i', st') \<Longrightarrow> i' \<le> index"
proof (induction block uses index st and block uses as index st
    arbitrary: i' st' and i' st' rule: visit_visitArgs.pinduct)
  case (1 block uses index st)
  note eq = visit.psimps[OF 1(1)]
  from 1(3) eq have lt: "index < length block" by (simp split: if_splits)
  with 1(3) eq have "visitArgs block uses (rev (drop (lower (block ! index)) (args (block ! index))))
      index (unshift (own_op (block ! index)) st) = Inr (i', st')" by simp
  from 1(2)[OF lt this] show ?case .
next
  case (2 block uses index st)
  then show ?case
    by (simp add: visitArgs.psimps)
next
  case (3 block uses arg rest index st)
  note eq = visitArgs.psimps(2)[OF 3(1)]
  note res = 3(6)
  show ?case
  proof (cases "arg < 0")
    case True
    with res eq have "visitArgs block uses rest index (unshift (I32Const (bitnot arg)) st)
        = Inr (i', st')" by simp
    from 3(2)[OF True this] show ?thesis .
  next
    case neg: False
    show ?thesis
    proof (cases "used_once uses (nat arg) \<and> arg = int index - 1")
      case False
      obtain l st1 where m: "makeLocal (nat arg) st = (l, st1)" by (cases "makeLocal (nat arg) st")
      with False neg res eq have "visitArgs block uses rest index (unshift (GetLocal (int l)) st1)
        = Inr (i', st')" by auto
      from 3(5)[OF neg False m[symmetric] this] show ?thesis .
    next
      case True
      with neg res eq obtain ci cst where
        r: "visit block uses (index - 1) st = Inr (ci, cst)" and
        a: "visitArgs block uses rest ci cst = Inr (i', st')"
        by (simp split: sum.splits prod.splits)
      from 3(3)[OF neg True r] have "ci \<le> index - 1" .
      moreover from 3(4)[OF neg True r refl a] have "i' \<le> ci" .
      ultimately show ?thesis by simp
    qed
  qed
qed

lemma visit_total: "All visit_visitArgs_dom"
proof (relation "measures [
    (\<lambda>x. case x of Inl (b, u, i, st) \<Rightarrow> i | Inr (b, u, as, i, st) \<Rightarrow> i),
    (\<lambda>x. case x of Inl _ \<Rightarrow> 1 | Inr _ \<Rightarrow> 0),
    (\<lambda>x. case x of Inl _ \<Rightarrow> 0 | Inr (b, u, as, i, st) \<Rightarrow> length as)]",
    goal_cases)
  case 1
  then show ?case by simp
next
  case (2 block uses index st)
  then show ?case by simp
next
  case (3 block uses arg rest index st)
  then show ?case by simp
next
  case (4 block uses arg rest index st)
  then show ?case by simp
next
  case (5 block uses arg rest index st x2 x y)
  then have "x \<le> index - 1"
    using visit_index_le(1) by blast
  moreover from 5 have "0 < index" by simp
  ultimately have "x < index" by arith
  then show ?case by simp
next
  case (6 block uses arg rest index st x y)
  then show ?case by simp
qed

termination visit
  by (rule visit_total)

declare visit.simps [simp del]

lemma visit_le:
  "visit block uses index st = Inr (i', st') \<Longrightarrow> i' \<le> index"
  using visit_index_le(1) visit_total by blast

lemma visitArgs_le:
  "visitArgs block uses as index st = Inr (i', st') \<Longrightarrow> i' \<le> index"
  using visit_index_le(2) visit_total by blast

text \<open>
  The loop of the emitter. At \<open>index\<close>, when the instruction has a local, the first
  operation of the code is compared with the load of that local: it becomes a
  \<open>tee_local\<close>, or else a \<open>set_local\<close> is put in front. Then \<open>visit\<close> runs.
  On an empty code \<open>wasmCode[0]\<close> is \<open>undefined\<close> and the comparison is false.
\<close>

definition store_local :: "nat \<Rightarrow> emit_state \<Rightarrow> emit_state" where
  "store_local index st =
     (case locals st index of
        None \<Rightarrow> st
      | Some local \<Rightarrow>
          (case wasmCode st of
             [] \<Rightarrow> unshift (SetLocal (int local)) st
           | c # cs \<Rightarrow>
               if c = GetLocal (int local) then st\<lparr>wasmCode := TeeLocal (int local) # cs\<rparr>
               else unshift (SetLocal (int local)) st))"

function emitLoop :: "Ins list \<Rightarrow> cell list \<Rightarrow> nat \<Rightarrow> emit_state \<Rightarrow> error + emit_state" where
  "emitLoop block uses index st =
     (if index > 0 then
        (case visit block uses (index - 1) (store_local (index - 1) st) of
           Inl e \<Rightarrow> Inl e
         | Inr (index', st') \<Rightarrow> emitLoop block uses index' st')
      else Inr st)"
  by pat_completeness auto

termination
proof (relation "measure (\<lambda>(block, uses, index, st). index)", goal_cases)
  case 1
  then show ?case by simp
next
  case (2 block uses index st x2 x y)
  then have "x \<le> index - 1"
    by (auto dest: visit_le)
  with 2 show ?case by auto
qed

section \<open>The transform\<close>

declare recoverLoop.simps [simp del] emitLoop.simps [simp del]

definition init_state :: emit_state where
  "init_state = \<lparr>wasmCode = [], locals = Map.empty, nextLocal = 100\<rparr>"

text \<open>
  \<open>stackify\<close> counts the uses, recovers the trees and emits the code, each pass with
  its own \<open>index\<close> starting at \<open>block.length\<close> and both reading the array \<open>uses\<close>.
  It prints the trees and the code; the model returns them.
\<close>

definition stackify :: "Ins list \<Rightarrow> error + ((nat \<times> tree) list \<times> wasm_op list)" where
  "stackify block =
     (case countUses block [] of
        Inl e \<Rightarrow> Inl e
      | Inr uses \<Rightarrow>
          (case recoverLoop block uses (length block) [] of
             Inl e \<Rightarrow> Inl e
           | Inr trees \<Rightarrow>
               (case emitLoop block uses (length block) init_state of
                  Inl e \<Rightarrow> Inl e
                | Inr st \<Rightarrow> Inr (trees, wasmCode st))))"

text \<open>The trees alone, and the final state of the emitter alone.\<close>

definition recover :: "Ins list \<Rightarrow> error + (nat \<times> tree) list" where
  "recover block =
     (case countUses block [] of
        Inl e \<Rightarrow> Inl e
      | Inr uses \<Rightarrow> recoverLoop block uses (length block) [])"

definition emit :: "Ins list \<Rightarrow> error + emit_state" where
  "emit block =
     (case countUses block [] of
        Inl e \<Rightarrow> Inl e
      | Inr uses \<Rightarrow> emitLoop block uses (length block) init_state)"

lemma stackify_passes:
  "stackify block =
     (case recover block of
        Inl e \<Rightarrow> Inl e
      | Inr trees \<Rightarrow>
          (case emit block of
             Inl e \<Rightarrow> Inl e
           | Inr st \<Rightarrow> Inr (trees, wasmCode st)))"
  by (simp add: stackify_def recover_def emit_def split: sum.splits)

section \<open>The transform with a log of the calls\<close>

text \<open>
  The same code with two lists added that the code does not have: \<open>recoverTree\<close> and
  \<open>visit\<close> append the value of \<open>index\<close> to a log when they are entered. Nothing reads
  the logs. Each function below is the function of the same name above with the log
  passed along.
\<close>

function recoverTree_logged :: "Ins list \<Rightarrow> cell list \<Rightarrow> nat \<Rightarrow> nat list
      \<Rightarrow> error + (tree \<times> bool \<times> nat \<times> nat list)"
  and recoverArgs_logged :: "Ins list \<Rightarrow> cell list \<Rightarrow> int list \<Rightarrow> nat \<Rightarrow> child list \<Rightarrow> bool
      \<Rightarrow> nat list \<Rightarrow> error + (child list \<times> bool \<times> nat \<times> nat list)"
where
  "recoverTree_logged block uses index log =
     (if index < length block then
        (case recoverArgs_logged block uses (rev (args (block ! index))) index [] False
                (log @ [index]) of
           Inl e \<Rightarrow> Inl e
         | Inr (children, stopped, index', log') \<Rightarrow>
             Inr (Tree (kind (block ! index)) children, stopped, index', log'))
      else Inl TypeError)"
| "recoverArgs_logged block uses [] index children stopped log =
     Inr (children, stopped, index, log)"
| "recoverArgs_logged block uses (arg # rest) index children stopped log =
     (if arg < 0 then
        recoverArgs_logged block uses rest index (CNum (bitnot arg) # children) stopped log
      else if used_once uses (nat arg) \<and> arg = int index - 1 \<and> \<not> stopped then
        (case recoverTree_logged block uses (index - 1) log of
           Inl e \<Rightarrow> Inl e
         | Inr (childTree, childStopped, index', log') \<Rightarrow>
             recoverArgs_logged block uses rest index' (CTree childTree # children)
               (if childStopped then True else stopped) log')
      else recoverArgs_logged block uses rest index (CName arg # children) True log)"
  by pat_completeness auto

lemma recover_logged_index_le:
  "recoverTree_logged_recoverArgs_logged_dom (Inl (block, uses, index, log)) \<Longrightarrow>
     recoverTree_logged block uses index log = Inr (t, s, i', log') \<Longrightarrow> i' \<le> index"
  "recoverTree_logged_recoverArgs_logged_dom (Inr (block, uses, as, index, cs, stopped, log)) \<Longrightarrow>
     recoverArgs_logged block uses as index cs stopped log = Inr (cs', s', i'', log'') \<Longrightarrow>
     i'' \<le> index"
proof (induction block uses index log and block uses as index cs stopped log
    arbitrary: t s i' log' and cs' s' i'' log'' rule: recoverTree_logged_recoverArgs_logged.pinduct)
  case (1 block uses index log)
  then show ?case
    by (auto simp: recoverTree_logged.psimps split: if_splits sum.splits)
next
  case (2 block uses index children stopped log)
  then show ?case
    by (simp add: recoverArgs_logged.psimps)
next
  case (3 block uses arg rest index children stopped log)
  note eq = recoverArgs_logged.psimps(2)[OF 3(1)]
  note res = 3(6)
  show ?case
  proof (cases "arg < 0")
    case True
    with res eq have
      "recoverArgs_logged block uses rest index (CNum (bitnot arg) # children) stopped log
        = Inr (cs', s', i'', log'')" by simp
    from 3(2)[OF True this] show ?thesis .
  next
    case neg: False
    show ?thesis
    proof (cases "used_once uses (nat arg) \<and> arg = int index - 1 \<and> \<not> stopped")
      case False
      with neg res eq have
        "recoverArgs_logged block uses rest index (CName arg # children) True log
          = Inr (cs', s', i'', log'')" by auto
      from 3(5)[OF neg False this] show ?thesis .
    next
      case True
      with neg res eq obtain ct cst ci cl where
        r: "recoverTree_logged block uses (index - 1) log = Inr (ct, cst, ci, cl)" and
        a: "recoverArgs_logged block uses rest ci (CTree ct # children)
              (if cst then True else stopped) cl = Inr (cs', s', i'', log'')"
        by (simp split: sum.splits prod.splits)
      from 3(3)[OF neg True r] have "ci \<le> index - 1" .
      moreover from 3(4)[OF neg True r refl refl refl a] have "i'' \<le> ci" .
      ultimately show ?thesis by simp
    qed
  qed
qed

lemma recover_logged_total: "All recoverTree_logged_recoverArgs_logged_dom"
proof (relation "measures [
    (\<lambda>x. case x of Inl (b, u, i, l) \<Rightarrow> i | Inr (b, u, as, i, cs, s, l) \<Rightarrow> i),
    (\<lambda>x. case x of Inl _ \<Rightarrow> 1 | Inr _ \<Rightarrow> 0),
    (\<lambda>x. case x of Inl _ \<Rightarrow> 0 | Inr (b, u, as, i, cs, s, l) \<Rightarrow> length as)]",
    goal_cases)
  case 1
  then show ?case by simp
next
  case (2 block uses index log)
  then show ?case by simp
next
  case (3 block uses arg rest index children stopped log)
  then show ?case by simp
next
  case (4 block uses arg rest index children stopped log)
  then show ?case by simp
next
  case (5 block uses arg rest index children stopped log x2 x y xa ya xb yb)
  then have "xb \<le> index - 1"
    using recover_logged_index_le(1) by blast
  moreover from 5 have "0 < index" by simp
  ultimately have "xb < index" by arith
  then show ?case by simp
next
  case (6 block uses arg rest index children stopped log)
  then show ?case by simp
qed

termination recoverTree_logged
  by (rule recover_logged_total)

declare recoverTree_logged.simps [simp del]




function visit_logged :: "Ins list \<Rightarrow> cell list \<Rightarrow> nat \<Rightarrow> emit_state \<Rightarrow> nat list
      \<Rightarrow> error + (nat \<times> emit_state \<times> nat list)"
  and visitArgs_logged :: "Ins list \<Rightarrow> cell list \<Rightarrow> int list \<Rightarrow> nat \<Rightarrow> emit_state \<Rightarrow> nat list
      \<Rightarrow> error + (nat \<times> emit_state \<times> nat list)"
where
  "visit_logged block uses index st log =
     (if index < length block then
        visitArgs_logged block uses (rev (drop (lower (block ! index)) (args (block ! index))))
          index (unshift (own_op (block ! index)) st) (log @ [index])
      else Inl TypeError)"
| "visitArgs_logged block uses [] index st log = Inr (index, st, log)"
| "visitArgs_logged block uses (arg # rest) index st log =
     (if arg < 0 then
        visitArgs_logged block uses rest index (unshift (I32Const (bitnot arg)) st) log
      else if used_once uses (nat arg) \<and> arg = int index - 1 then
        (case visit_logged block uses (index - 1) st log of
           Inl e \<Rightarrow> Inl e
         | Inr (index', st', log') \<Rightarrow> visitArgs_logged block uses rest index' st' log')
      else
        (case makeLocal (nat arg) st of
           (local, st') \<Rightarrow>
             visitArgs_logged block uses rest index (unshift (GetLocal (int local)) st') log))"
  by pat_completeness auto

lemma visit_logged_index_le:
  "visit_logged_visitArgs_logged_dom (Inl (block, uses, index, st, log)) \<Longrightarrow>
     visit_logged block uses index st log = Inr (i', st', log') \<Longrightarrow> i' \<le> index"
  "visit_logged_visitArgs_logged_dom (Inr (block, uses, as, index, st, log)) \<Longrightarrow>
     visitArgs_logged block uses as index st log = Inr (i', st', log') \<Longrightarrow> i' \<le> index"
proof (induction block uses index st log and block uses as index st log
    arbitrary: i' st' log' and i' st' log' rule: visit_logged_visitArgs_logged.pinduct)
  case (1 block uses index st log)
  note eq = visit_logged.psimps[OF 1(1)]
  from 1(3) eq have lt: "index < length block" by (simp split: if_splits)
  with 1(3) eq have
    "visitArgs_logged block uses (rev (drop (lower (block ! index)) (args (block ! index))))
      index (unshift (own_op (block ! index)) st) (log @ [index]) = Inr (i', st', log')" by simp
  from 1(2)[OF lt this] show ?case .
next
  case (2 block uses index st log)
  then show ?case
    by (simp add: visitArgs_logged.psimps)
next
  case (3 block uses arg rest index st log)
  note eq = visitArgs_logged.psimps(2)[OF 3(1)]
  note res = 3(6)
  show ?case
  proof (cases "arg < 0")
    case True
    with res eq have
      "visitArgs_logged block uses rest index (unshift (I32Const (bitnot arg)) st) log
        = Inr (i', st', log')" by simp
    from 3(2)[OF True this] show ?thesis .
  next
    case neg: False
    show ?thesis
    proof (cases "used_once uses (nat arg) \<and> arg = int index - 1")
      case False
      obtain l st1 where m: "makeLocal (nat arg) st = (l, st1)" by (cases "makeLocal (nat arg) st")
      with False neg res eq have
        "visitArgs_logged block uses rest index (unshift (GetLocal (int l)) st1) log
          = Inr (i', st', log')" by auto
      from 3(5)[OF neg False m[symmetric] this] show ?thesis .
    next
      case True
      with neg res eq obtain ci cst cl where
        r: "visit_logged block uses (index - 1) st log = Inr (ci, cst, cl)" and
        a: "visitArgs_logged block uses rest ci cst cl = Inr (i', st', log')"
        by (simp split: sum.splits prod.splits)
      from 3(3)[OF neg True r] have "ci \<le> index - 1" .
      moreover from 3(4)[OF neg True r refl refl a] have "i' \<le> ci" .
      ultimately show ?thesis by simp
    qed
  qed
qed

lemma visit_logged_total: "All visit_logged_visitArgs_logged_dom"
proof (relation "measures [
    (\<lambda>x. case x of Inl (b, u, i, st, l) \<Rightarrow> i | Inr (b, u, as, i, st, l) \<Rightarrow> i),
    (\<lambda>x. case x of Inl _ \<Rightarrow> 1 | Inr _ \<Rightarrow> 0),
    (\<lambda>x. case x of Inl _ \<Rightarrow> 0 | Inr (b, u, as, i, st, l) \<Rightarrow> length as)]",
    goal_cases)
  case 1
  then show ?case by simp
next
  case (2 block uses index st log)
  then show ?case by simp
next
  case (3 block uses arg rest index st log)
  then show ?case by simp
next
  case (4 block uses arg rest index st log)
  then show ?case by simp
next
  case (5 block uses arg rest index st log x2 x y xa ya)
  then have "x \<le> index - 1"
    using visit_logged_index_le(1) by blast
  moreover from 5 have "0 < index" by simp
  ultimately have "x < index" by arith
  then show ?case by simp
next
  case (6 block uses arg rest index st log x y)
  then show ?case by simp
qed

termination visit_logged
  by (rule visit_logged_total)

declare visit_logged.simps [simp del]





text \<open>
  The positions at which the loop of the emitter itself calls \<open>visit\<close>, in the order of
  the calls. The other positions are visited by a call of \<open>visit\<close> from \<open>visit\<close>: their
  instructions are compiled in place.
\<close>

function emitLoopRoots :: "Ins list \<Rightarrow> cell list \<Rightarrow> nat \<Rightarrow> emit_state \<Rightarrow> nat list" where
  "emitLoopRoots block uses index st =
     (if index > 0 then
        (index - 1) #
        (case visit block uses (index - 1) (store_local (index - 1) st) of
           Inl e \<Rightarrow> []
         | Inr (index', st') \<Rightarrow> emitLoopRoots block uses index' st')
      else [])"
  by pat_completeness auto

termination
proof (relation "measure (\<lambda>(block, uses, index, st). index)", goal_cases)
  case 1
  then show ?case by simp
next
  case (2 block uses index st x2 x y)
  then have "x \<le> index - 1"
    by (auto dest: visit_le)
  with 2 show ?case by auto
qed

declare emitLoopRoots.simps [simp del]

section \<open>Notions used in the statements\<close>

text \<open>
  The number of arguments of the block that are the index \<open>k\<close>, and the blocks in which
  no argument of the instruction at position \<open>p\<close>, \<open>p + 1\<close>, ... points past its own
  instruction.
\<close>

definition ref_count :: "Ins list \<Rightarrow> nat \<Rightarrow> nat" where
  "ref_count block k = count_list (concat (map args block)) (int k)"

fun refs_upto :: "nat \<Rightarrow> Ins list \<Rightarrow> bool" where
  "refs_upto p [] = True"
| "refs_upto p (ins # rest) = ((\<forall>a\<in>set (args ins). a \<le> int p) \<and> refs_upto (Suc p) rest)"

text \<open>
  The number of tree nodes below a child and in a tree, and the kinds of the nodes of a
  tree listed with every node after its children (the children from left to right).
\<close>

fun cnodes :: "child \<Rightarrow> nat" and nodes :: "tree \<Rightarrow> nat" where
  "cnodes (CNum v) = 0"
| "cnodes (CName a) = 0"
| "cnodes (CTree t) = nodes t"
| "nodes (Tree k cs) = Suc (sum_list (map cnodes cs))"

fun cpostorder :: "child \<Rightarrow> InsKind list" and postorder :: "tree \<Rightarrow> InsKind list" where
  "cpostorder (CNum v) = []"
| "cpostorder (CName a) = []"
| "cpostorder (CTree t) = postorder t"
| "postorder (Tree k cs) = concat (map cpostorder cs) @ [k]"

text \<open>
  A tree with \<open>n\<close> nodes whose root is the instruction \<open>r\<close> stands for the instructions
  \<open>r + 1 - n, ..., r\<close>: each nested tree was recovered from the instruction just below
  the ones already taken. \<open>spans\<close> lists these indices tree by tree.
\<close>

definition spans :: "(nat \<times> tree) list \<Rightarrow> nat list" where
  "spans forest = concat (map (\<lambda>(r, t). [Suc r - nodes t ..< Suc r]) forest)"

text \<open>The elements of a list at the positions \<open>a, ..., b - 1\<close>.\<close>

definition segment :: "'a list \<Rightarrow> nat \<Rightarrow> nat \<Rightarrow> 'a list" where
  "segment xs a b = take (b - a) (drop a xs)"

text \<open>
  The constants that \<open>visit\<close> reads in its loop over the arguments of an instruction:
  the values \<open>~arg\<close> of the negative arguments from position \<open>lower\<close> on.
\<close>

definition const_operands :: "Ins \<Rightarrow> int list" where
  "const_operands ins = map bitnot (filter (\<lambda>a. a < 0) (drop (lower ins) (args ins)))"

text \<open>
  The index arguments that \<open>visit\<close> reads in its loop over the arguments of an
  instruction.
\<close>

definition ref_operands :: "Ins \<Rightarrow> int list" where
  "ref_operands ins = filter (\<lambda>a. 0 \<le> a) (drop (lower ins) (args ins))"

text \<open>
  The table of locals is in order when different indices have different locals and the
  locals in the table are exactly 100, ..., \<open>nextLocal - 1\<close>.
\<close>

definition slots_ok :: "emit_state \<Rightarrow> bool" where
  "slots_ok st = (inj_on (locals st) (dom (locals st)) \<and>
     ran (locals st) = {100..<nextLocal st} \<and> 100 \<le> nextLocal st)"

text \<open>
  What may change in the table between a state and a later one: entries are only added,
  the counter only goes up, and the added indices are index arguments of the block.
\<close>

definition slots_step :: "Ins list \<Rightarrow> emit_state \<Rightarrow> emit_state \<Rightarrow> bool" where
  "slots_step block st st' = (slots_ok st' \<and> locals st \<subseteq>\<^sub>m locals st' \<and>
     nextLocal st \<le> nextLocal st' \<and>
     dom (locals st') \<subseteq> dom (locals st) \<union> {nat a |a. a \<in> set (concat (map ref_operands block))})"

text \<open>
  Every index argument of the instructions \<open>lo, ..., hi - 1\<close> whose use count is not 1
  has a local.
\<close>

definition multi_use_slots :: "Ins list \<Rightarrow> cell list \<Rightarrow> nat \<Rightarrow> nat \<Rightarrow> emit_state \<Rightarrow> bool" where
  "multi_use_slots block uses lo hi st =
     (\<forall>p. lo \<le> p \<and> p < hi \<longrightarrow>
        (\<forall>a\<in>set (ref_operands (block ! p)). \<not> used_once uses (nat a) \<longrightarrow> nat a \<in> dom (locals st)))"

text \<open>
  A child holds a name when it is a name or, being a tree, has a name anywhere inside.
  \<open>is_name\<close> holds of a name only.
\<close>

fun child_names :: "child \<Rightarrow> bool" and tree_names :: "tree \<Rightarrow> bool" where
  "child_names (CNum v) = False"
| "child_names (CName a) = True"
| "child_names (CTree t) = tree_names t"
| "tree_names (Tree k cs) = (\<exists>c\<in>set cs. child_names c)"

fun is_name :: "child \<Rightarrow> bool" where
  "is_name (CName a) = True"
| "is_name c = False"

text \<open>
  The rule for one operand \<open>arg\<close> of the instruction at \<open>index\<close>, given the children
  \<open>right\<close> already made for the operands to its right, and the child \<open>c\<close> made for
  it. The cursor is \<open>index\<close> less the instructions taken into the trees of \<open>right\<close>.
  In \<open>operand_rule\<close> the recovery has stopped when a name occurs anywhere in \<open>right\<close>,
  also inside a nested tree; in \<open>operand_rule_stated\<close>, which follows the words of the
  specification, when one of the operands to the right became a name.
\<close>

definition operand_rule :: "Ins list \<Rightarrow> cell list \<Rightarrow> nat \<Rightarrow> int \<Rightarrow> child list \<Rightarrow> child \<Rightarrow> bool" where
  "operand_rule block uses index arg right c =
     (let cursor = index - sum_list (map cnodes right);
          stopped = (\<exists>r\<in>set right. child_names r)
      in if arg < 0 then c = CNum (bitnot arg)
         else if used_once uses (nat arg) \<and> arg = int cursor - 1 \<and> \<not> stopped then
           (case recoverTree block uses (cursor - 1) of
              Inl e \<Rightarrow> False
            | Inr (t, s, i) \<Rightarrow> c = CTree t)
         else c = CName arg)"

definition operand_rule_stated :: "Ins list \<Rightarrow> cell list \<Rightarrow> nat \<Rightarrow> int \<Rightarrow> child list \<Rightarrow> child \<Rightarrow> bool" where
  "operand_rule_stated block uses index arg right c =
     (let cursor = index - sum_list (map cnodes right);
          stopped = (\<exists>r\<in>set right. is_name r)
      in if arg < 0 then c = CNum (bitnot arg)
         else if used_once uses (nat arg) \<and> arg = int cursor - 1 \<and> \<not> stopped then
           (case recoverTree block uses (cursor - 1) of
              Inl e \<Rightarrow> False
            | Inr (t, s, i) \<Rightarrow> c = CTree t)
         else c = CName arg)"




text \<open>
  The states in which the loop of the emitter stands at its test \<open>index > 0\<close>, with the
  value of \<open>index\<close>: first \<open>block.length\<close> and the initial state, then after each turn of
  the loop the index and the state that \<open>visit\<close> leaves.
\<close>

inductive loop_reaches :: "Ins list \<Rightarrow> cell list \<Rightarrow> nat \<Rightarrow> emit_state \<Rightarrow> bool"
  for block :: "Ins list" and uses :: "cell list"
where
  start: "loop_reaches block uses (length block) init_state"
| step: "loop_reaches block uses index st \<Longrightarrow> 0 < index \<Longrightarrow>
     visit block uses (index - 1) (store_local (index - 1) st) = Inr (i', st') \<Longrightarrow>
     loop_reaches block uses i' st'"

text \<open>
  The index arguments read by \<open>visit\<close> in the instructions \<open>a, ..., b - 1\<close>, with their
  multiplicities. The keys of the table are accounted for at the index \<open>c\<close> when they are
  the values of some of the index arguments of the instructions from \<open>c\<close> on.
\<close>

definition refs_in :: "Ins list \<Rightarrow> nat \<Rightarrow> nat \<Rightarrow> int multiset" where
  "refs_in block a b = mset (concat (map ref_operands (segment block a b)))"


text \<open>
  The positions below \<open>index\<close> whose instructions are compiled in place when the loop of
  the emitter runs from \<open>index\<close> in the state \<open>st\<close>.
\<close>

definition inlined_positions :: "Ins list \<Rightarrow> cell list \<Rightarrow> nat \<Rightarrow> emit_state \<Rightarrow> nat list" where
  "inlined_positions block uses index st =
     filter (\<lambda>p. p \<notin> set (emitLoopRoots block uses index st)) [0..<index]"

section \<open>Evaluation on a given block\<close>

lemmas eval_simps = emit_def emitLoop.simps visit.simps store_local_def makeLocal_def
  unshift_def own_op_def lower_def bitnot_first_def bitnot_def used_once_def bump_def
  init_state_def max_length_def

lemmas recover_eval_simps = recoverTree.simps used_once_def bump_def bitnot_def max_length_def

lemmas stackify_eval_simps = stackify_def recoverLoop.simps recoverTree.simps emitLoop.simps
  visit.simps store_local_def makeLocal_def unshift_def own_op_def lower_def bitnot_first_def
  bitnot_def used_once_def bump_def init_state_def max_length_def

section \<open>The two passes return on every block\<close>

lemma recover_ok:
  "index < length block \<Longrightarrow> \<exists>r. recoverTree block uses index = Inr r"
  "index \<le> length block \<Longrightarrow> \<exists>r. recoverArgs block uses as index cs stopped = Inr r"
proof (induction block uses index and block uses as index cs stopped
    rule: recoverTree_recoverArgs.induct)
  case (1 block uses index)
  then obtain r where "recoverArgs block uses (rev (args (block ! index))) index [] False = Inr r"
    by fastforce
  with 1(2) show ?case
    by (cases r) (simp add: recoverTree.simps split: prod.splits)
next
  case (2 block uses index children stopped)
  then show ?case by simp
next
  case (3 block uses arg rest index children stopped)
  show ?case
  proof (cases "arg < 0")
    case True
    with 3 show ?thesis by simp
  next
    case neg: False
    show ?thesis
    proof (cases "used_once uses (nat arg) \<and> arg = int index - 1 \<and> \<not> stopped")
      case False
      with neg 3(4)[OF neg False 3(5)] show ?thesis by auto
    next
      case True
      with neg 3(5) have lt: "index - 1 < length block" by auto
      from 3(2)[OF neg True lt] obtain ct cst ci
        where r: "recoverTree block uses (index - 1) = Inr (ct, cst, ci)"
        by (metis prod_cases3)
      from recoverTree_index_le[OF r] lt have "ci \<le> length block" by simp
      from 3(3)[OF neg True r refl refl this] r neg True show ?thesis by auto
    qed
  qed
qed

lemma recoverLoop_ok:
  "index \<le> length block \<Longrightarrow> \<exists>r. recoverLoop block uses index trees = Inr r"
proof (induction block uses index trees rule: recoverLoop.induct)
  case (1 block uses index trees)
  show ?case
  proof (cases "index > 0")
    case False
    then show ?thesis by (simp add: recoverLoop.simps)
  next
    case True
    with 1(2) have lt: "index - 1 < length block" by simp
    from recover_ok(1)[OF lt] obtain t s i'
      where r: "recoverTree block uses (index - 1) = Inr (t, s, i')"
      by (metis prod_cases3)
    from recoverTree_index_le[OF r] lt have "i' \<le> length block" by simp
    from 1(1)[OF True r refl refl this] True r show ?thesis
      by (subst recoverLoop.simps) simp
  qed
qed



text \<open>
  Claim C10: on the empty block the transform succeeds and returns the empty forest and
  the empty code sequence.
\<close>

theorem stackify_empty: "stackify [] = Inr ([], [])"
  by (simp add: stackify_def recoverLoop.simps emitLoop.simps init_state_def)

section \<open>The use counts\<close>

lemma bump_Num:
  "a < length cs \<Longrightarrow> bump (map Num cs) a = map Num (cs[a := Suc (cs ! a)])"
  by (simp add: bump_def map_update)

lemma countArgs_Num:
  "\<forall>a\<in>set as. a < int (length cs) \<Longrightarrow>
     countArgs as (map Num cs) = map Num (map (\<lambda>k. cs ! k + count_list as (int k)) [0..<length cs])"
proof (induction as arbitrary: cs)
  case Nil
  then show ?case by (simp add: map_nth)
next
  case (Cons a as)
  show ?case
  proof (cases "a \<ge> 0")
    case False
    then have "\<And>k. a \<noteq> int k" by auto
    with False Cons show ?thesis by simp
  next
    case True
    let ?cs = "cs[nat a := Suc (cs ! nat a)]"
    from True Cons.prems have lt: "nat a < length cs" by auto
    from Cons.prems have "\<forall>b\<in>set as. b < int (length ?cs)" by simp
    from Cons.IH[OF this] have
      "countArgs as (map Num ?cs) = map Num (map (\<lambda>k. ?cs ! k + count_list as (int k)) [0..<length cs])"
      by simp
    moreover have "map (\<lambda>k. ?cs ! k + count_list as (int k)) [0..<length cs]
        = map (\<lambda>k. cs ! k + count_list (a # as) (int k)) [0..<length cs]"
      using True lt by (auto simp: nth_list_update)
    ultimately show ?thesis using True lt by (simp add: bump_Num)
  qed
qed

lemma count_list_0: "x \<notin> set xs \<Longrightarrow> count_list xs x = 0"
  by (induction xs) auto

lemma ref_count_Cons:
  "ref_count (ins # rest) k = count_list (args ins) (int k) + ref_count rest k"
  by (simp add: ref_count_def)

lemma countUses_Num:
  "refs_upto (length cs) rest \<Longrightarrow> length cs \<le> max_length \<Longrightarrow>
     countUses rest (map Num cs) =
       (if length cs + length rest \<le> max_length then
          Inr (map Num (map (\<lambda>k. (if k < length cs then cs ! k else 0) + ref_count rest k)
            [0..<length cs + length rest]))
        else Inl RangeError)"
proof (induction rest arbitrary: cs)
  case Nil
  have "map (\<lambda>k. if k < length cs then cs ! k else 0) [0..<length cs] = map ((!) cs) [0..<length cs]"
    by (rule map_cong) auto
  with Nil show ?case by (simp add: ref_count_def map_nth flip: map_map)
next
  case (Cons ins rest)
  show ?case
  proof (cases "length cs < max_length")
    case False
    with Cons.prems show ?thesis by simp
  next
    case lt: True
    let ?cs0 = "cs @ [0]"
    let ?cs1 = "map (\<lambda>k. ?cs0 ! k + count_list (args ins) (int k)) [0..<length ?cs0]"
    from Cons.prems have a: "\<forall>a\<in>set (args ins). a < int (length ?cs0)" by auto
    have step: "countArgs (args ins) (map Num cs @ [Num 0]) = map Num ?cs1"
      using countArgs_Num[OF a] by simp
    from Cons.prems have "refs_upto (length ?cs1) rest" by simp
    moreover from lt have "length ?cs1 \<le> max_length" by simp
    ultimately have ih: "countUses rest (map Num ?cs1) =
       (if length ?cs1 + length rest \<le> max_length then
          Inr (map Num (map (\<lambda>k. (if k < length ?cs1 then ?cs1 ! k else 0) + ref_count rest k)
            [0..<length ?cs1 + length rest]))
        else Inl RangeError)" by (rule Cons.IH)
    have eq: "(if k < length ?cs1 then ?cs1 ! k else 0) + ref_count rest k
        = (if k < length cs then cs ! k else 0) + ref_count (ins # rest) k" for k
    proof -
      note rc = ref_count_Cons
      consider "k < length cs" | "k = length cs" | "k > length cs" by linarith
      then show ?thesis
      proof cases
        case 1
        then show ?thesis by (simp add: rc nth_append)
      next
        case 2
        then show ?thesis by (simp add: rc nth_append)
      next
        case 3
        with Cons.prems have "int k \<notin> set (args ins)" by auto
        with 3 show ?thesis by (simp add: rc count_list_0)
      qed
    qed
    have len: "length ?cs1 + length rest = length cs + length (ins # rest)" by simp
    have "countUses (ins # rest) (map Num cs) = countUses rest (map Num ?cs1)"
      using step lt by simp
    also note ih
    also have "(if length ?cs1 + length rest \<le> max_length then
          Inr (map Num (map (\<lambda>k. (if k < length ?cs1 then ?cs1 ! k else 0) + ref_count rest k)
            [0..<length ?cs1 + length rest]))
        else Inl RangeError)
       = (if length cs + length (ins # rest) \<le> max_length then
          Inr (map Num (map (\<lambda>k. (if k < length cs then cs ! k else 0) + ref_count (ins # rest) k)
            [0..<length cs + length (ins # rest)]))
        else Inl RangeError)"
      unfolding len eq ..
    finally show ?thesis .
  qed
qed

lemma countUses_backward:
  "refs_upto 0 block \<Longrightarrow> length block \<le> max_length \<Longrightarrow>
     countUses block [] = Inr (map (\<lambda>k. Num (ref_count block k)) [0..<length block])"
  using countUses_Num[of "[]" block] by simp

text \<open>
  Claim C7, as the code has it: on a block in which no argument points past its own
  instruction (so on every block whose references are strictly backward), the array of
  use counts has one cell per instruction and cell \<open>k\<close> is the number of arguments of the
  whole block that are the index \<open>k\<close>. The count is a function of the block alone and
  writes nothing but the array it returns. A block is an array and has at most
  \<open>max_length\<close> instructions; on a longer list \<open>push\<close> would fail.
\<close>

theorem use_count_backward:
  "refs_upto 0 block \<Longrightarrow>
     countUses block [] =
       (if length block \<le> max_length then
          Inr (map (\<lambda>k. Num (ref_count block k)) [0..<length block])
        else Inl RangeError)"
  using countUses_Num[of "[]" block] by simp

text \<open>Claim C7, witness: a block of three instructions with use counts 2, 1 and 1.\<close>

theorem use_count_backward_witness:
  "refs_upto 0 [\<lparr>kind = LocalGet, args = [-1]\<rparr>, \<lparr>kind = Add, args = [0, 0]\<rparr>,
       \<lparr>kind = Add, args = [1, 2]\<rparr>]
   \<and> countUses [\<lparr>kind = LocalGet, args = [-1]\<rparr>, \<lparr>kind = Add, args = [0, 0]\<rparr>,
       \<lparr>kind = Add, args = [1, 2]\<rparr>] []
      = Inr [Num 2, Num 1, Num 1]"
  using use_count_backward[of "[\<lparr>kind = LocalGet, args = [-1]\<rparr>, \<lparr>kind = Add, args = [0, 0]\<rparr>,
       \<lparr>kind = Add, args = [1, 2]\<rparr>]"]
  by (simp add: ref_count_def upt_rec max_length_def)

text \<open>
  Claim C7 as stated (for every block) fails: the first instruction of this block names
  index 1, one argument of the block is the index 1, and the cell 1 of the array is
  \<open>NaN\<close>.
\<close>

theorem use_count_forward_counterexample:
  "countUses [\<lparr>kind = Add, args = [1]\<rparr>, \<lparr>kind = Add, args = []\<rparr>] [] = Inr [Num 0, NaN, Num 0]
   \<and> ref_count [\<lparr>kind = Add, args = [1]\<rparr>, \<lparr>kind = Add, args = []\<rparr>] 1 = 1"
  by (simp add: ref_count_def bump_def max_length_def)

section \<open>The array limit\<close>


lemma countUses_full:
  "length uses = max_length \<Longrightarrow> countUses (ins # rest) uses = Inl RangeError"
  by simp


section \<open>The errors of the transform\<close>







section \<open>The forest covers the block\<close>

lemma segment_append: "a \<le> b \<Longrightarrow> b \<le> c \<Longrightarrow> segment xs a b @ segment xs b c = segment xs a c"
proof -
  assume ab: "a \<le> b" and bc: "b \<le> c"
  have "take (c - a) (drop a xs) = take (b - a) (drop a xs) @ take (c - b) (drop (b - a) (drop a xs))"
    using ab bc take_add[of "b - a" "c - b" "drop a xs"] by simp
  with ab show ?thesis by (simp add: segment_def)
qed

lemma map_segment_append:
  "a \<le> b \<Longrightarrow> b \<le> c \<Longrightarrow> map f (segment xs a b) @ map f (segment xs b c) = map f (segment xs a c)"
  by (metis map_append segment_append)

lemma segment_0: "segment xs 0 n = take n xs"
  by (simp add: segment_def)

lemma segment_single: "i < length xs \<Longrightarrow> segment xs i (Suc i) = [xs ! i]"
  by (simp add: segment_def take_Suc_conv_app_nth Cons_nth_drop_Suc[symmetric])

lemma segment_empty [simp]: "segment xs a a = []"
  by (simp add: segment_def)

lemma recoverArgs_Cons_cases [consumes 1, case_names Const Inline Name]:
  assumes "recoverArgs block uses (arg # rest) index cs stopped = Inr res"
  obtains
    (Const) "arg < 0"
      "recoverArgs block uses rest index (CNum (bitnot arg) # cs) stopped = Inr res"
  | (Inline) ct cst ci where "\<not> arg < 0"
      "used_once uses (nat arg) \<and> arg = int index - 1 \<and> \<not> stopped" "0 < index"
      "recoverTree block uses (index - 1) = Inr (ct, cst, ci)"
      "recoverArgs block uses rest ci (CTree ct # cs) (if cst then True else stopped) = Inr res"
  | (Name) "\<not> arg < 0"
      "\<not> (used_once uses (nat arg) \<and> arg = int index - 1 \<and> \<not> stopped)"
      "recoverArgs block uses rest index (CName arg # cs) True = Inr res"
proof (cases "arg < 0")
  case True
  with assms Const show ?thesis by simp
next
  case neg: False
  show ?thesis
  proof (cases "used_once uses (nat arg) \<and> arg = int index - 1 \<and> \<not> stopped")
    case False
    with neg assms Name show ?thesis by auto
  next
    case True
    with neg have pos: "0 < index" by auto
    have "recoverArgs block uses (arg # rest) index cs stopped =
        (if used_once uses (nat arg) \<and> arg = int index - 1 \<and> \<not> stopped then
          (case recoverTree block uses (index - 1) of
             Inl e \<Rightarrow> Inl e
           | Inr (childTree, childStopped, index') \<Rightarrow>
               recoverArgs block uses rest index' (CTree childTree # cs)
                 (if childStopped then True else stopped))
         else recoverArgs block uses rest index (CName arg # cs) True)"
      by (rule trans[OF recoverArgs.simps(2) if_not_P[OF neg]])
    also have "\<dots> = (case recoverTree block uses (index - 1) of
             Inl e \<Rightarrow> Inl e
           | Inr (childTree, childStopped, index') \<Rightarrow>
               recoverArgs block uses rest index' (CTree childTree # cs)
                 (if childStopped then True else stopped))"
      by (rule if_P[OF True])
    finally have eq: "(case recoverTree block uses (index - 1) of
             Inl e \<Rightarrow> Inl e
           | Inr (childTree, childStopped, index') \<Rightarrow>
               recoverArgs block uses rest index' (CTree childTree # cs)
                 (if childStopped then True else stopped)) = Inr res"
      using assms by simp
    show ?thesis
    proof (cases "recoverTree block uses (index - 1)")
      case (Inl e)
      with eq show ?thesis by simp
    next
      case (Inr r)
      obtain ct cst ci where r: "r = (ct, cst, ci)" by (cases r)
      from eq Inr r
      have "recoverArgs block uses rest ci (CTree ct # cs) (if cst then True else stopped) = Inr res"
        by simp
      from Inline[OF neg True pos Inr[unfolded r] this] show ?thesis .
    qed
  qed
qed

lemma nodes_pos: "0 < nodes t"
  by (cases t) simp

lemma spans_snoc: "spans (f @ [(r, t)]) = spans f @ [Suc r - nodes t..<Suc r]"
  by (simp add: spans_def del: upt_Suc)

lemma recover_shape:
  "recoverTree block uses index = Inr (t, s, i') \<Longrightarrow>
     index < length block \<and> i' + nodes t = Suc index \<and>
     postorder t = map kind (segment block i' (Suc index))"
  "recoverArgs block uses as index cs stopped = Inr (cs', s', i') \<Longrightarrow> index \<le> length block \<Longrightarrow>
     (\<exists>new. cs' = new @ cs \<and> i' + sum_list (map cnodes new) = index \<and>
        concat (map cpostorder new) = map kind (segment block i' index))"
proof (induction block uses index and block uses as index cs stopped
    arbitrary: t s i' and cs' s' i' rule: recoverTree_recoverArgs.induct)
  case (1 block uses index)
  from 1(2) have lt: "index < length block"
    by (simp add: recoverTree.simps split: if_splits)
  with 1(2) obtain cs where
    a: "recoverArgs block uses (rev (args (block ! index))) index [] False = Inr (cs, s, i')"
    and t: "t = Tree (kind (block ! index)) cs"
    by (auto simp: recoverTree.simps split: sum.splits)
  from 1(1)[OF lt a] lt have
    n: "i' + sum_list (map cnodes cs) = index" and
    p: "concat (map cpostorder cs) = map kind (segment block i' index)"
    by auto
  from n have le: "i' \<le> index" by simp
  have "segment block i' (Suc index) = segment block i' index @ [block ! index]"
    using segment_append[OF le, of "Suc index" block] lt by (simp add: segment_single)
  with lt t n p show ?case by simp
next
  case (2 block uses index children stopped)
  then show ?case by simp
next
  case (3 block uses arg rest index children stopped)
  from 3(5) show ?case
  proof (cases rule: recoverArgs_Cons_cases)
    case Const
    from 3(1)[OF Const 3(6)] show ?thesis by auto
  next
    case Name
    from 3(4)[OF Name 3(6)] show ?thesis by auto
  next
    case (Inline ct cst ci)
    note neg = Inline(1) and True = Inline(2) and pos = Inline(3) and r = Inline(4) and a = Inline(5)
    from 3(2)[OF neg True r] pos have
      ct: "ci + nodes ct = index" "postorder ct = map kind (segment block ci index)"
      by auto
    then have ci: "ci \<le> index" by simp
    with 3(6) have "ci \<le> length block" by simp
    from 3(3)[OF neg True r refl refl a this] obtain new where
      new: "cs' = new @ CTree ct # children" "i' + sum_list (map cnodes new) = ci"
        "concat (map cpostorder new) = map kind (segment block i' ci)"
      by auto
    then have le: "i' \<le> ci" by simp
    have "cs' = (new @ [CTree ct]) @ children" using new by simp
    moreover have "i' + sum_list (map cnodes (new @ [CTree ct])) = index"
      using new ct by simp
    moreover have "concat (map cpostorder (new @ [CTree ct])) = map kind (segment block i' index)"
      using new ct map_segment_append[OF le ci, of kind block] by simp
    ultimately show ?thesis by blast
  qed
qed

lemma recoverLoop_shape:
  "recoverLoop block uses index trees = Inr forest \<Longrightarrow> index \<le> length block \<Longrightarrow>
     (\<exists>new. forest = new @ trees \<and> spans new = [0..<index] \<and>
        concat (map (postorder \<circ> snd) new) = map kind (take index block) \<and>
        sorted_wrt (<) (map fst new) \<and> list_all (\<lambda>(r, t). r < index \<and> nodes t \<le> Suc r) new)"
proof (induction block uses index trees arbitrary: forest rule: recoverLoop.induct)
  case (1 block uses index trees)
  show ?case
  proof (cases "index > 0")
    case False
    with 1(2) show ?thesis by (simp add: recoverLoop.simps spans_def)
  next
    case True
    with 1(2) obtain t s i' where
      r: "recoverTree block uses (index - 1) = Inr (t, s, i')" and
      l: "recoverLoop block uses i' ((index - 1, t) # trees) = Inr forest"
      by (subst (asm) recoverLoop.simps) (auto split: sum.splits)
    from recover_shape(1)[OF r] True have
      t: "i' + nodes t = index" "postorder t = map kind (segment block i' index)"
      by auto
    then have le: "i' \<le> index" by simp
    from t nodes_pos[of t] have lt: "i' \<le> index - 1" by arith
    from le 1(3) have "i' \<le> length block" by simp
    from 1(1)[OF True r refl refl l this] obtain new where
      new: "forest = new @ (index - 1, t) # trees" "spans new = [0..<i']"
        "concat (map (postorder \<circ> snd) new) = map kind (take i' block)"
        "sorted_wrt (<) (map fst new)" "list_all (\<lambda>(r, t). r < i' \<and> nodes t \<le> Suc r) new"
      by blast
    let ?new = "new @ [(index - 1, t)]"
    have "forest = ?new @ trees" using new by simp
    moreover have "spans ?new = [0..<index]"
    proof -
      from t True have "Suc (index - 1) - nodes t = i'" "Suc (index - 1) = index" by arith+
      then have "[Suc (index - 1) - nodes t..<Suc (index - 1)] = [i'..<index]" by simp
      then have "spans ?new = [0..<i'] @ [i'..<index]"
        using new(2) by (simp only: spans_snoc)
      with le show ?thesis by (metis le_add_diff_inverse upt_add_eq_append zero_le)
    qed
    moreover have "concat (map (postorder \<circ> snd) ?new) = map kind (take index block)"
    proof -
      have "map kind (segment block 0 i') @ map kind (segment block i' index)
          = map kind (segment block 0 index)"
        using map_segment_append[OF _ le, of 0 kind block] by simp
      then show ?thesis using new(3) t by (simp add: segment_0)
    qed
    moreover have "sorted_wrt (<) (map fst ?new)"
      using new(4,5) lt True by (fastforce simp: sorted_wrt_append list_all_iff)
    moreover have "list_all (\<lambda>(r, t). r < index \<and> nodes t \<le> Suc r) ?new"
      using new(5) le True t by (auto simp: list_all_iff)
    ultimately show ?thesis by blast
  qed
qed

lemma recover_covers:
  assumes "recover block = Inr forest"
  shows "spans forest = [0..<length block] \<and>
     concat (map (postorder \<circ> snd) forest) = map kind block \<and>
     list_all (\<lambda>(r, t). nodes t \<le> Suc r) forest \<and>
     sorted_wrt (<) (map fst forest)"
proof -
  from assms obtain uses where "recoverLoop block uses (length block) [] = Inr forest"
    by (auto simp: recover_def split: sum.splits)
  from recoverLoop_shape[OF this] show ?thesis
    by (auto simp: list_all_iff)
qed

lemma recover_returns:
  assumes "refs_upto 0 block" "length block \<le> max_length"
  shows "\<exists>forest. recover block = Inr forest"
  using countUses_backward[OF assms] recoverLoop_ok[of "length block" block]
  by (simp add: recover_def)

text \<open>
  Claim C6: whenever the recovery returns a forest, the forest covers every instruction
  index exactly once: the index ranges of the trees, taken in the order of the forest,
  are \<open>0, 1, ..., length block - 1\<close> with no gap and no repetition, the nodes of the
  trees listed children first are the instructions of the block in their order, every
  tree is no larger than the indices up to its root allow, and the roots of the forest
  are in increasing order. The recovery returns a forest on every block of at most
  \<open>max_length\<close> instructions (a block is an array) in which no argument points past its
  own instruction, so on every block whose references are strictly backward.
\<close>

theorem forest_covers_block:
  "(refs_upto 0 block \<and> length block \<le> max_length \<longrightarrow> (\<exists>forest. recover block = Inr forest)) \<and>
   (\<forall>forest. recover block = Inr forest \<longrightarrow>
      spans forest = [0..<length block] \<and>
      concat (map (postorder \<circ> snd) forest) = map kind block \<and>
      list_all (\<lambda>(r, t). nodes t \<le> Suc r) forest \<and>
      sorted_wrt (<) (map fst forest))"
  using recover_returns[of block] recover_covers[of block] by blast

text \<open>
  Claim C6, witness: a block of four instructions with strictly backward references.
  The forest has two trees, for the instructions 0 and 1 to 3.
\<close>

theorem forest_covers_block_witness:
  "refs_upto 0 [\<lparr>kind = LocalGet, args = [-1]\<rparr>, \<lparr>kind = Add, args = [0, -6]\<rparr>,
       \<lparr>kind = LocalGet, args = [-2]\<rparr>, \<lparr>kind = Add, args = [0, 1, 2]\<rparr>]
   \<and> length [\<lparr>kind = LocalGet, args = [-1]\<rparr>, \<lparr>kind = Add, args = [0, -6]\<rparr>,
       \<lparr>kind = LocalGet, args = [-2]\<rparr>, \<lparr>kind = Add, args = [0, 1, 2]\<rparr>] \<le> max_length
   \<and> recover [\<lparr>kind = LocalGet, args = [-1]\<rparr>, \<lparr>kind = Add, args = [0, -6]\<rparr>,
       \<lparr>kind = LocalGet, args = [-2]\<rparr>, \<lparr>kind = Add, args = [0, 1, 2]\<rparr>]
     = Inr [(0::nat, Tree LocalGet [CNum 0]),
            (3, Tree Add [CName 0, CTree (Tree Add [CName 0, CNum 5]), CTree (Tree LocalGet [CNum 1])])]
   \<and> (spans [(0::nat, Tree LocalGet [CNum 0]),
            (3, Tree Add [CName 0, CTree (Tree Add [CName 0, CNum 5]), CTree (Tree LocalGet [CNum 1])])]
       = [0..<length [\<lparr>kind = LocalGet, args = [-1]\<rparr>, \<lparr>kind = Add, args = [0, -6]\<rparr>,
           \<lparr>kind = LocalGet, args = [-2]\<rparr>, \<lparr>kind = Add, args = [0, 1, 2]\<rparr>]]
     \<and> concat (map (postorder \<circ> snd) [(0::nat, Tree LocalGet [CNum 0]),
            (3, Tree Add [CName 0, CTree (Tree Add [CName 0, CNum 5]), CTree (Tree LocalGet [CNum 1])])])
       = map kind [\<lparr>kind = LocalGet, args = [-1]\<rparr>, \<lparr>kind = Add, args = [0, -6]\<rparr>,
           \<lparr>kind = LocalGet, args = [-2]\<rparr>, \<lparr>kind = Add, args = [0, 1, 2]\<rparr>]
     \<and> list_all (\<lambda>(r, t). nodes t \<le> Suc r) [(0::nat, Tree LocalGet [CNum 0]),
            (3, Tree Add [CName 0, CTree (Tree Add [CName 0, CNum 5]), CTree (Tree LocalGet [CNum 1])])]
     \<and> sorted_wrt (<) (map fst [(0::nat, Tree LocalGet [CNum 0]),
            (3, Tree Add [CName 0, CTree (Tree Add [CName 0, CNum 5]), CTree (Tree LocalGet [CNum 1])])]))"
proof -
  let ?b = "[\<lparr>kind = LocalGet, args = [-1]\<rparr>, \<lparr>kind = Add, args = [0, -6]\<rparr>,
       \<lparr>kind = LocalGet, args = [-2]\<rparr>, \<lparr>kind = Add, args = [0, 1, 2]\<rparr>]"
  have h1: "refs_upto 0 ?b" by simp
  have h2: "length ?b \<le> max_length" by (simp add: max_length_def)
  have h3: "recover ?b = Inr [(0::nat, Tree LocalGet [CNum 0]),
            (3, Tree Add [CName 0, CTree (Tree Add [CName 0, CNum 5]), CTree (Tree LocalGet [CNum 1])])]"
    by (simp add: recover_def recoverLoop.simps recover_eval_simps)
  show ?thesis
    by (rule conjI[OF h1 conjI[OF h2 conjI[OF h3
          forest_covers_block[THEN conjunct2, rule_format, OF h3]]]])
qed

section \<open>The steps of the emitter\<close>

lemma unshift_simps [simp]:
  "wasmCode (unshift c st) = c # wasmCode st"
  "locals (unshift c st) = locals st"
  "nextLocal (unshift c st) = nextLocal st"
  by (simp_all add: unshift_def)

lemma makeLocal_code: "makeLocal k st = (l, st') \<Longrightarrow> wasmCode st' = wasmCode st"
  by (auto simp: makeLocal_def split: option.splits)

lemma visitArgs_Cons_cases [consumes 1, case_names Const Inline Load]:
  assumes "visitArgs block uses (arg # rest) index st = Inr res"
  obtains
    (Const) "arg < 0"
      "visitArgs block uses rest index (unshift (I32Const (bitnot arg)) st) = Inr res"
  | (Inline) ci cst where "\<not> arg < 0"
      "used_once uses (nat arg) \<and> arg = int index - 1" "0 < index"
      "visit block uses (index - 1) st = Inr (ci, cst)"
      "visitArgs block uses rest ci cst = Inr res"
  | (Load) l st1 where "\<not> arg < 0"
      "\<not> (used_once uses (nat arg) \<and> arg = int index - 1)"
      "(l, st1) = makeLocal (nat arg) st"
      "visitArgs block uses rest index (unshift (GetLocal (int l)) st1) = Inr res"
proof (cases "arg < 0")
  case True
  with assms Const show ?thesis by simp
next
  case neg: False
  show ?thesis
  proof (cases "used_once uses (nat arg) \<and> arg = int index - 1")
    case False
    obtain l st1 where m: "(l, st1) = makeLocal (nat arg) st"
      by (cases "makeLocal (nat arg) st") simp
    have "visitArgs block uses (arg # rest) index st =
        (if used_once uses (nat arg) \<and> arg = int index - 1 then
          (case visit block uses (index - 1) st of
             Inl e \<Rightarrow> Inl e
           | Inr (index', st') \<Rightarrow> visitArgs block uses rest index' st')
         else
          (case makeLocal (nat arg) st of
             (local, st') \<Rightarrow> visitArgs block uses rest index (unshift (GetLocal (int local)) st')))"
      by (rule trans[OF visitArgs.simps(2) if_not_P[OF neg]])
    also have "\<dots> = (case makeLocal (nat arg) st of
             (local, st') \<Rightarrow> visitArgs block uses rest index (unshift (GetLocal (int local)) st'))"
      by (rule if_not_P[OF False])
    also have "\<dots> = visitArgs block uses rest index (unshift (GetLocal (int l)) st1)"
      by (simp add: m[symmetric])
    finally have "visitArgs block uses rest index (unshift (GetLocal (int l)) st1) = Inr res"
      using assms by simp
    from Load[OF neg False m this] show ?thesis .
  next
    case True
    with neg have pos: "0 < index" by auto
    have "visitArgs block uses (arg # rest) index st =
        (if used_once uses (nat arg) \<and> arg = int index - 1 then
          (case visit block uses (index - 1) st of
             Inl e \<Rightarrow> Inl e
           | Inr (index', st') \<Rightarrow> visitArgs block uses rest index' st')
         else
          (case makeLocal (nat arg) st of
             (local, st') \<Rightarrow> visitArgs block uses rest index (unshift (GetLocal (int local)) st')))"
      by (rule trans[OF visitArgs.simps(2) if_not_P[OF neg]])
    also have "\<dots> = (case visit block uses (index - 1) st of
             Inl e \<Rightarrow> Inl e
           | Inr (index', st') \<Rightarrow> visitArgs block uses rest index' st')"
      by (rule if_P[OF True])
    finally have eq: "(case visit block uses (index - 1) st of
             Inl e \<Rightarrow> Inl e
           | Inr (index', st') \<Rightarrow> visitArgs block uses rest index' st') = Inr res"
      using assms by simp
    show ?thesis
    proof (cases "visit block uses (index - 1) st")
      case (Inl e)
      with eq show ?thesis by simp
    next
      case (Inr r)
      obtain ci cst where r: "r = (ci, cst)" by (cases r)
      from eq Inr r have "visitArgs block uses rest ci cst = Inr res" by simp
      from Inline[OF neg True pos Inr[unfolded r] this] show ?thesis .
    qed
  qed
qed

lemma visit_cases [consumes 1, case_names Visit]:
  assumes "visit block uses index st = Inr res"
  obtains "index < length block"
    "visitArgs block uses (rev (drop (lower (block ! index)) (args (block ! index)))) index
       (unshift (own_op (block ! index)) st) = Inr res"
  using assms by (simp add: visit.simps split: if_splits)

lemma visit_preserves:
  assumes u: "\<And>c st. P st \<Longrightarrow> P (unshift c st)"
  shows "visit block uses index st = Inr (i', st') \<Longrightarrow> P st \<Longrightarrow>
      (\<And>a p st l st'. P st \<Longrightarrow> p < length block \<Longrightarrow> a \<in> set (ref_operands (block ! p)) \<Longrightarrow>
              makeLocal (nat a) st = (l, st') \<Longrightarrow> P st') \<Longrightarrow> P st'"
    and "visitArgs block uses as index st = Inr (i', st') \<Longrightarrow> P st \<Longrightarrow>
      (\<forall>a\<in>set as. 0 \<le> a \<longrightarrow> (\<exists>p<length block. a \<in> set (ref_operands (block ! p)))) \<Longrightarrow>
      (\<And>a p st l st'. P st \<Longrightarrow> p < length block \<Longrightarrow> a \<in> set (ref_operands (block ! p)) \<Longrightarrow>
              makeLocal (nat a) st = (l, st') \<Longrightarrow> P st') \<Longrightarrow> P st'"
proof (induction block uses index st and block uses as index st
    arbitrary: i' st' and i' st' rule: visit_visitArgs.induct)
  case (1 block uses index st)
  from 1(2) show ?case
  proof (cases rule: visit_cases)
    case Visit
    have "\<forall>a\<in>set (rev (drop (lower (block ! index)) (args (block ! index)))). 0 \<le> a \<longrightarrow>
        (\<exists>p<length block. a \<in> set (ref_operands (block ! p)))"
      using Visit(1) by (auto simp: ref_operands_def)
    from 1(1)[OF Visit u[OF 1(3)] this 1(4)] show ?thesis .
  qed
next
  case (2 block uses index st)
  then show ?case by simp
next
  case (3 block uses arg rest index st)
  from 3(7) have rest: "\<forall>a\<in>set rest. 0 \<le> a \<longrightarrow> (\<exists>p<length block. a \<in> set (ref_operands (block ! p)))"
    by simp
  from 3(5) show ?case
  proof (cases rule: visitArgs_Cons_cases)
    case Const
    from 3(1)[OF Const u[OF 3(6)] rest 3(8)] show ?thesis .
  next
    case (Load l st1)
    from 3(7) Load(1) obtain p where "p < length block" "arg \<in> set (ref_operands (block ! p))"
      by auto
    from 3(8)[OF 3(6) this Load(3)[symmetric]] have "P st1" .
    from 3(4)[OF Load u[OF this] rest 3(8)] show ?thesis .
  next
    case (Inline ci cst)
    from 3(2)[OF Inline(1,2,4) 3(6) 3(8)] have "P cst" .
    from 3(3)[OF Inline(1,2,4) refl Inline(5) this rest 3(8)] show ?thesis .
  qed
qed


lemma store_local_cases:
  obtains (Keep) "store_local i st = st"
  | (Set) l where "locals st i = Some l" "store_local i st = unshift (SetLocal (int l)) st"
  | (Tee) l cs where "locals st i = Some l" "wasmCode st = GetLocal (int l) # cs"
      "store_local i st = st\<lparr>wasmCode := TeeLocal (int l) # cs\<rparr>"
proof (cases "locals st i")
  case None
  then have "store_local i st = st" by (simp add: store_local_def)
  then show ?thesis by (rule Keep)
next
  case (Some l)
  show ?thesis
  proof (cases "\<exists>cs. wasmCode st = GetLocal (int l) # cs")
    case True
    then obtain cs where cs: "wasmCode st = GetLocal (int l) # cs" by blast
    with Some have "store_local i st = st\<lparr>wasmCode := TeeLocal (int l) # cs\<rparr>"
      by (simp add: store_local_def)
    from Tee[OF Some cs this] show ?thesis .
  next
    case False
    with Some have "store_local i st = unshift (SetLocal (int l)) st"
      by (auto simp: store_local_def split: list.splits)
    from Set[OF Some this] show ?thesis .
  qed
qed

lemma emitLoop_cases [consumes 1, case_names Stop Step]:
  assumes "emitLoop block uses index st = Inr st'"
  obtains (Stop) "index = 0" "st' = st"
  | (Step) i' st1 where "0 < index"
      "visit block uses (index - 1) (store_local (index - 1) st) = Inr (i', st1)"
      "emitLoop block uses i' st1 = Inr st'"
proof (cases "index > 0")
  case False
  with assms Stop show ?thesis by (simp add: emitLoop.simps)
next
  case True
  with assms have eq: "(case visit block uses (index - 1) (store_local (index - 1) st) of
           Inl e \<Rightarrow> Inl e
         | Inr (index', st') \<Rightarrow> emitLoop block uses index' st') = Inr st'"
    by (subst (asm) emitLoop.simps) simp
  show ?thesis
  proof (cases "visit block uses (index - 1) (store_local (index - 1) st)")
    case (Inl e)
    with eq show ?thesis by simp
  next
    case (Inr r)
    obtain i' st1 where r: "r = (i', st1)" by (cases r)
    from eq Inr r have "emitLoop block uses i' st1 = Inr st'" by simp
    from Step[OF True Inr[unfolded r] this] show ?thesis .
  qed
qed

lemma emitLoop_preserves:
  assumes u: "\<And>c st. P st \<Longrightarrow> P (unshift c st)"
    and s: "\<And>i st. P st \<Longrightarrow> P (store_local i st)"
  shows "emitLoop block uses index st = Inr st' \<Longrightarrow> P st \<Longrightarrow>
      (\<And>a p st l st'. P st \<Longrightarrow> p < length block \<Longrightarrow> a \<in> set (ref_operands (block ! p)) \<Longrightarrow>
              makeLocal (nat a) st = (l, st') \<Longrightarrow> P st') \<Longrightarrow> P st'"
proof (induction block uses index st arbitrary: st' rule: emitLoop.induct)
  case (1 block uses index st)
  from 1(2) show ?case
  proof (cases rule: emitLoop_cases)
    case Stop
    with 1(3) show ?thesis by simp
  next
    case (Step i' st1)
    have "P st1"
      by (rule visit_preserves(1)[of P, OF u Step(2) s[OF 1(3)] 1(4)])
    from 1(1)[OF Step(1,2) refl Step(3) this 1(4)] show ?thesis .
  qed
qed

section \<open>The constants in the emitted code\<close>

lemma own_op_not_const [simp]: "own_op ins \<noteq> I32Const v"
  by (simp add: own_op_def split: InsKind.splits)

lemma count_consts_segment:
  "a \<le> b \<Longrightarrow> b \<le> c \<Longrightarrow>
   count_list (concat (map f (segment xs a b))) v + count_list (concat (map f (segment xs b c))) v
     = count_list (concat (map f (segment xs a c))) v"
  using map_segment_append[of a b c f xs] by (metis concat_append count_list_append)

lemma visit_consts:
  "visit block uses index st = Inr (i', st') \<Longrightarrow>
     (\<exists>new. wasmCode st' = new @ wasmCode st \<and> i' \<le> index \<and> index < length block \<and>
        (\<forall>v. count_list new (I32Const v)
           = count_list (concat (map const_operands (segment block i' (Suc index)))) v))"
  "visitArgs block uses as index st = Inr (i', st') \<Longrightarrow>
     (\<exists>new. wasmCode st' = new @ wasmCode st \<and> i' \<le> index \<and>
        (\<forall>v. count_list new (I32Const v)
           = count_list (map bitnot (filter (\<lambda>a. a < 0) as)) v
             + count_list (concat (map const_operands (segment block i' index))) v))"
proof (induction block uses index st and block uses as index st
    arbitrary: i' st' and i' st' rule: visit_visitArgs.induct)
  case (1 block uses index st)
  from 1(2) show ?case
  proof (cases rule: visit_cases)
    case Visit
    from 1(1)[OF Visit] obtain new where
      new: "wasmCode st' = new @ own_op (block ! index) # wasmCode st" "i' \<le> index"
        "\<And>v. count_list new (I32Const v)
           = count_list (map bitnot (filter (\<lambda>a. a < 0) (rev (drop (lower (block ! index)) (args (block ! index)))))) v
             + count_list (concat (map const_operands (segment block i' index))) v"
      by auto
    have seg: "count_list (concat (map const_operands (segment block i' (Suc index)))) v
        = count_list (concat (map const_operands (segment block i' index))) v
          + count_list (const_operands (block ! index)) v" for v
      using count_consts_segment[OF new(2), of "Suc index" const_operands block v] Visit(1)
      by (simp add: segment_single)
    have "wasmCode st' = (new @ [own_op (block ! index)]) @ wasmCode st"
      using new(1) by simp
    moreover have "count_list (new @ [own_op (block ! index)]) (I32Const v)
        = count_list (concat (map const_operands (segment block i' (Suc index)))) v" for v
      using new(3)[of v] seg[of v]
      by (simp add: const_operands_def rev_filter[symmetric] rev_map[symmetric])
    ultimately show ?thesis using new(2) Visit(1) by blast
  qed
next
  case (2 block uses index st)
  then show ?case by simp
next
  case (3 block uses arg rest index st)
  from 3(5) show ?case
  proof (cases rule: visitArgs_Cons_cases)
    case Const
    from 3(1)[OF Const] obtain new where
      new: "wasmCode st' = new @ I32Const (bitnot arg) # wasmCode st" "i' \<le> index"
        "\<And>v. count_list new (I32Const v)
           = count_list (map bitnot (filter (\<lambda>a. a < 0) rest)) v
             + count_list (concat (map const_operands (segment block i' index))) v"
      by auto
    have "wasmCode st' = (new @ [I32Const (bitnot arg)]) @ wasmCode st"
      using new(1) by simp
    moreover have "count_list (new @ [I32Const (bitnot arg)]) (I32Const v)
        = count_list (map bitnot (filter (\<lambda>a. a < 0) (arg # rest))) v
             + count_list (concat (map const_operands (segment block i' index))) v" for v
      using new(3)[of v] Const(1) by simp
    ultimately show ?thesis using new(2) by blast
  next
    case (Load l st1)
    from makeLocal_code[OF Load(3)[symmetric]] have c: "wasmCode st1 = wasmCode st" .
    from 3(4)[OF Load] obtain new where
      new: "wasmCode st' = new @ GetLocal (int l) # wasmCode st" "i' \<le> index"
        "\<And>v. count_list new (I32Const v)
           = count_list (map bitnot (filter (\<lambda>a. a < 0) rest)) v
             + count_list (concat (map const_operands (segment block i' index))) v"
      using c by auto
    have "wasmCode st' = (new @ [GetLocal (int l)]) @ wasmCode st"
      using new(1) by simp
    moreover have "count_list (new @ [GetLocal (int l)]) (I32Const v)
        = count_list (map bitnot (filter (\<lambda>a. a < 0) (arg # rest))) v
             + count_list (concat (map const_operands (segment block i' index))) v" for v
      using new(3)[of v] Load(1) by simp
    ultimately show ?thesis using new(2) by blast
  next
    case (Inline ci cst)
    from 3(2)[OF Inline(1,2,4)] Inline(3) obtain new1 where
      new1: "wasmCode cst = new1 @ wasmCode st" "ci \<le> index - 1" "index - 1 < length block"
        "\<And>v. count_list new1 (I32Const v)
           = count_list (concat (map const_operands (segment block ci index))) v"
      by auto
    from 3(3)[OF Inline(1,2,4) refl Inline(5)] obtain new2 where
      new2: "wasmCode st' = new2 @ wasmCode cst" "i' \<le> ci"
        "\<And>v. count_list new2 (I32Const v)
           = count_list (map bitnot (filter (\<lambda>a. a < 0) rest)) v
             + count_list (concat (map const_operands (segment block i' ci))) v"
      by auto
    from new1(2) have ci: "ci \<le> index" by simp
    have "wasmCode st' = (new2 @ new1) @ wasmCode st"
      using new1(1) new2(1) by simp
    moreover have "count_list (new2 @ new1) (I32Const v)
        = count_list (map bitnot (filter (\<lambda>a. a < 0) (arg # rest))) v
             + count_list (concat (map const_operands (segment block i' index))) v" for v
      using new1(4)[of v] new2(3)[of v] Inline(1)
        count_consts_segment[OF new2(2) ci, of const_operands block v] by simp
    moreover have "i' \<le> index" using new2(2) ci by simp
    ultimately show ?thesis by blast
  qed
qed

lemma store_local_consts:
  "count_list (wasmCode (store_local i st)) (I32Const v) = count_list (wasmCode st) (I32Const v)"
  by (auto simp: store_local_def split: option.splits list.splits)

lemma emitLoop_consts:
  "emitLoop block uses index st = Inr st' \<Longrightarrow> index \<le> length block \<Longrightarrow>
     count_list (wasmCode st') (I32Const v)
       = count_list (concat (map const_operands (take index block))) v
         + count_list (wasmCode st) (I32Const v)"
proof (induction block uses index st arbitrary: st' rule: emitLoop.induct)
  case (1 block uses index st)
  show ?case
  proof (cases "index > 0")
    case False
    with 1(2) show ?thesis by (simp add: emitLoop.simps)
  next
    case True
    with 1(2) obtain i' st1 where
      r: "visit block uses (index - 1) (store_local (index - 1) st) = Inr (i', st1)" and
      l: "emitLoop block uses i' st1 = Inr st'"
      by (subst (asm) emitLoop.simps) (auto split: sum.splits)
    from visit_consts(1)[OF r] True obtain new where
      new: "wasmCode st1 = new @ wasmCode (store_local (index - 1) st)" "i' \<le> index"
        "\<And>v. count_list new (I32Const v)
           = count_list (concat (map const_operands (segment block i' index))) v"
      by auto
    from new(2) 1(3) have "i' \<le> length block" by simp
    from 1(1)[OF True r refl l this] have
      "count_list (wasmCode st') (I32Const v)
       = count_list (concat (map const_operands (take i' block))) v
         + count_list (wasmCode st1) (I32Const v)" .
    moreover have "count_list (concat (map const_operands (segment block 0 i'))) v
        + count_list (concat (map const_operands (segment block i' index))) v
        = count_list (concat (map const_operands (segment block 0 index))) v"
      using count_consts_segment[OF _ new(2), of 0 const_operands block v] by simp
    ultimately show ?thesis
      using new(1) new(3)[of v] by (simp add: store_local_consts segment_0)
  qed
qed

text \<open>
  Claim C4, as the code has it: whenever the transform returns, for every value \<open>v\<close> the
  emitted code holds exactly as many \<open>i32.const v\<close> as the block has constant arguments
  of value \<open>v\<close> among the arguments that \<open>visit\<close> loops over: all arguments of an \<open>Add\<close>,
  and the arguments after the first of a \<open>LocalGet\<close> or \<open>LocalSet\<close>. So each such
  \<open>Const(v)\<close> operand has its own immediate push. The first argument of a \<open>LocalGet\<close> or
  \<open>LocalSet\<close> is not pushed: it is the number printed in the instruction's own
  \<open>get_local\<close> or \<open>set_local\<close>.
\<close>

theorem consts_emitted:
  assumes "stackify block = Inr (trees, code)"
  shows "count_list code (I32Const v) = count_list (concat (map const_operands block)) v"
proof -
  from assms obtain uses st where
    e: "emitLoop block uses (length block) init_state = Inr st" and c: "code = wasmCode st"
    by (auto simp: stackify_def split: sum.splits)
  from emitLoop_consts[OF e, of v] c show ?thesis by (simp add: init_state_def)
qed

text \<open>
  Claim C4, witness: the block \<open>LocalGet [~0]; Add [0, ~5]\<close>. Its code holds one
  \<open>i32.const 5\<close>, for the second operand of the \<open>Add\<close>.
\<close>

theorem consts_emitted_witness:
  "stackify [\<lparr>kind = LocalGet, args = [-1]\<rparr>, \<lparr>kind = Add, args = [0, -6]\<rparr>]
     = Inr ([(1, Tree Add [CTree (Tree LocalGet [CNum 0]), CNum 5])],
            [GetLocal 0, I32Const 5, I32Add])
   \<and> count_list [GetLocal 0, I32Const 5, I32Add] (I32Const 5)
     = count_list (concat (map const_operands
         [\<lparr>kind = LocalGet, args = [-1]\<rparr>, \<lparr>kind = Add, args = [0, -6]\<rparr>])) 5"
proof -
  have h: "stackify [\<lparr>kind = LocalGet, args = [-1]\<rparr>, \<lparr>kind = Add, args = [0, -6]\<rparr>]
     = Inr ([(1, Tree Add [CTree (Tree LocalGet [CNum 0]), CNum 5])],
            [GetLocal 0, I32Const 5, I32Add])"
    by (simp add: stackify_eval_simps)
  show ?thesis
    by (rule conjI[OF h consts_emitted[OF h]])
qed

text \<open>
  Claim C4 as stated fails on the first operand of a \<open>LocalGet\<close>: the operand is
  \<open>Const(0)\<close> and the code has no \<open>i32.const 0\<close>.
\<close>

theorem first_operand_counterexample:
  "stackify [\<lparr>kind = LocalGet, args = [-1]\<rparr>] = Inr ([(0, Tree LocalGet [CNum 0])], [GetLocal 0])"
  by (simp add: stackify_eval_simps)

section \<open>The emitter and the flag \<open>stopped\<close>\<close>

text \<open>
  Claim C1 on two blocks. In the first, the last instruction adds the results of the two
  before it, \<open>Add [1, 0]\<close>: its right operand is not the instruction just before, so the
  tree has two names, \<open>tree1\<close> and \<open>tree0\<close>, and three trees are recovered; the emitter
  loads only the right operand from a local and computes instruction 1 in place. The
  second is the second block that \<open>stackify.ts\<close> runs: the tree of instruction 4 names
  \<open>tree1\<close> and instruction 1 has a tree of its own, while the emitted code computes
  instruction 1 in place, between the \<open>tee_local 100\<close> and the \<open>get_local 100\<close>.
\<close>

theorem emitter_ignores_stopped:
  "stackify [\<lparr>kind = Add, args = [-1, -2]\<rparr>, \<lparr>kind = Add, args = [-3, -4]\<rparr>,
      \<lparr>kind = Add, args = [1, 0]\<rparr>] =
     Inr ([(0, Tree Add [CNum 0, CNum 1]), (1, Tree Add [CNum 2, CNum 3]),
           (2, Tree Add [CName 1, CName 0])],
          [I32Const 0, I32Const 1, I32Add, SetLocal 100, I32Const 2, I32Const 3, I32Add,
           GetLocal 100, I32Add])
   \<and> stackify [\<lparr>kind = LocalGet, args = [-1]\<rparr>, \<lparr>kind = Add, args = [0, -2]\<rparr>,
      \<lparr>kind = Add, args = [0, -3]\<rparr>, \<lparr>kind = Add, args = [1, 2]\<rparr>,
      \<lparr>kind = LocalSet, args = [-1, 3]\<rparr>] =
     Inr ([(0, Tree LocalGet [CNum 0]), (1, Tree Add [CName 0, CNum 1]),
           (4, Tree LocalSet [CNum 0,
                 CTree (Tree Add [CName 1, CTree (Tree Add [CName 0, CNum 2])])])],
          [GetLocal 0, TeeLocal 100, I32Const 1, I32Add, GetLocal 100, I32Const 2, I32Add,
           I32Add, SetLocal 0])"
  by (simp add: stackify_eval_simps)

section \<open>The table of locals\<close>

lemma makeLocal_slots:
  assumes "slots_ok st" "makeLocal k st = (l, st')"
  shows "slots_ok st'" "locals st \<subseteq>\<^sub>m locals st'" "nextLocal st \<le> nextLocal st'"
    "locals st' k = Some l" "dom (locals st') = insert k (dom (locals st))"
proof -
  show "slots_ok st'"
  proof (cases "locals st k")
    case (Some a)
    with assms show ?thesis by (simp add: makeLocal_def)
  next
    case None
    with assms(2) have st': "st' = st\<lparr>locals := (locals st)(k \<mapsto> nextLocal st),
        nextLocal := nextLocal st + 1\<rparr>"
      by (auto simp: makeLocal_def)
    from assms(1) have inj: "inj_on (locals st) (dom (locals st))"
      and ran: "ran (locals st) = {100..<nextLocal st}" and ge: "100 \<le> nextLocal st"
      by (simp_all add: slots_ok_def)
    have fresh: "locals st j \<noteq> Some (nextLocal st)" for j
    proof
      assume "locals st j = Some (nextLocal st)"
      then have "nextLocal st \<in> ran (locals st)" by (rule ranI)
      with ran show False by simp
    qed
    have "inj_on ((locals st)(k \<mapsto> nextLocal st)) (insert k (dom (locals st)))"
      using inj fresh None unfolding inj_on_def
      by (auto simp: domIff)
    moreover have "ran ((locals st)(k \<mapsto> nextLocal st)) = {100..<nextLocal st + 1}"
      using None ran ge by (auto simp: ran_map_upd)
    ultimately show ?thesis using ge by (simp add: slots_ok_def st')
  qed
  show "locals st \<subseteq>\<^sub>m locals st'"
    using assms(2) by (auto simp: makeLocal_def map_le_def split: option.splits)
  show "nextLocal st \<le> nextLocal st'"
    using assms(2) by (auto simp: makeLocal_def split: option.splits)
  show "locals st' k = Some l"
    using assms(2) by (auto simp: makeLocal_def split: option.splits)
  show "dom (locals st') = insert k (dom (locals st))"
    using assms(2) by (auto simp: makeLocal_def split: option.splits)
qed

lemma makeLocal_dom: "makeLocal k st = (l, st') \<Longrightarrow> dom (locals st') = insert k (dom (locals st))"
  by (auto simp: makeLocal_def split: option.splits)

lemma store_local_fields [simp]:
  "locals (store_local i st) = locals st" "nextLocal (store_local i st) = nextLocal st"
  by (cases i st rule: store_local_cases; simp)+

lemma slots_ok_cong: "locals st' = locals st \<Longrightarrow> nextLocal st' = nextLocal st \<Longrightarrow>
    slots_ok st' = slots_ok st"
  by (simp add: slots_ok_def)

lemma slots_step_refl: "slots_ok st \<Longrightarrow> slots_step block st st"
  by (simp add: slots_step_def)

lemma slots_step_unshift: "slots_step block st0 st \<Longrightarrow> slots_step block st0 (unshift c st)"
  by (simp add: slots_step_def slots_ok_cong[of "unshift c st" st])

lemma slots_step_store: "slots_step block st0 st \<Longrightarrow> slots_step block st0 (store_local i st)"
  by (simp add: slots_step_def slots_ok_cong[of "store_local i st" st])

lemma slots_step_makeLocal:
  assumes "slots_step block st0 st" "p < length block" "a \<in> set (ref_operands (block ! p))"
    "makeLocal (nat a) st = (l, st')"
  shows "slots_step block st0 st'"
proof -
  from assms(1) have ok: "slots_ok st" by (simp add: slots_step_def)
  note ml = makeLocal_slots[OF ok assms(4)]
  from assms(2,3) have "a \<in> set (concat (map ref_operands block))"
    by (auto simp: in_set_conv_nth) (metis nth_mem)
  with assms(1) ml show ?thesis
    unfolding slots_step_def by (auto intro: map_le_trans)
qed

lemma emitLoop_slots_step:
  "emitLoop block uses index st = Inr st' \<Longrightarrow> slots_ok st \<Longrightarrow> slots_step block st st'"
  by (rule emitLoop_preserves[of "slots_step block st", OF slots_step_unshift slots_step_store])
    (auto intro: slots_step_refl slots_step_makeLocal)


lemma makeLocal_dom_mono:
  "makeLocal k st = (l, st') \<Longrightarrow> dom (locals st0) \<subseteq> dom (locals st) \<Longrightarrow>
     dom (locals st0) \<subseteq> dom (locals st')"
  by (auto simp: makeLocal_def split: option.splits)

lemma visit_dom_mono:
  "visit block uses index st = Inr (i', st') \<Longrightarrow> dom (locals st) \<subseteq> dom (locals st')"
proof (rule visit_preserves(1)[of "\<lambda>s. dom (locals st) \<subseteq> dom (locals s)"])
  show "dom (locals st) \<subseteq> dom (locals st)" by simp
qed (simp_all add: makeLocal_dom_mono)

lemma visitArgs_dom_mono:
  "visitArgs block uses as index st = Inr (i', st') \<Longrightarrow> dom (locals st) \<subseteq> dom (locals st')"
proof (induction as arbitrary: index st)
  case Nil
  then show ?case by simp
next
  case (Cons arg rest)
  from Cons.prems show ?case
  proof (cases rule: visitArgs_Cons_cases)
    case Const
    from Cons.IH[OF Const(2)] show ?thesis by simp
  next
    case (Load l st1)
    from Cons.IH[OF Load(4)] makeLocal_dom[OF Load(3)[symmetric]] show ?thesis by auto
  next
    case (Inline ci cst)
    from Cons.IH[OF Inline(5)] visit_dom_mono[OF Inline(4)] show ?thesis by auto
  qed
qed

lemma emitLoop_dom_mono:
  "emitLoop block uses index st = Inr st' \<Longrightarrow> dom (locals st) \<subseteq> dom (locals st')"
proof (induction block uses index st arbitrary: st' rule: emitLoop.induct)
  case (1 block uses index st)
  from 1(2) show ?case
  proof (cases rule: emitLoop_cases)
    case Stop
    then show ?thesis by simp
  next
    case (Step i' st1)
    from 1(1)[OF Step(1,2) refl Step(3)] visit_dom_mono[OF Step(2)] show ?thesis by auto
  qed
qed

lemma multi_use_slots_mono:
  "multi_use_slots block uses lo hi st \<Longrightarrow> dom (locals st) \<subseteq> dom (locals st') \<Longrightarrow>
     multi_use_slots block uses lo hi st'"
  unfolding multi_use_slots_def by blast

lemma multi_use_slots_join:
  "multi_use_slots block uses a b st \<Longrightarrow> multi_use_slots block uses b c st \<Longrightarrow>
     multi_use_slots block uses a c st"
  unfolding multi_use_slots_def by (meson not_le_imp_less)

lemma visit_multi_use:
  "visit block uses index st = Inr (i', st') \<Longrightarrow> multi_use_slots block uses i' (Suc index) st'"
  "visitArgs block uses as index st = Inr (i', st') \<Longrightarrow>
     (\<forall>a\<in>set as. 0 \<le> a \<and> \<not> used_once uses (nat a) \<longrightarrow> nat a \<in> dom (locals st')) \<and>
     multi_use_slots block uses i' index st'"
proof (induction block uses index st and block uses as index st
    arbitrary: i' st' and i' st' rule: visit_visitArgs.induct)
  case (1 block uses index st)
  from 1(2) show ?case
  proof (cases rule: visit_cases)
    case Visit
    from 1(1)[OF Visit] have
      a: "\<forall>a\<in>set (drop (lower (block ! index)) (args (block ! index))).
            0 \<le> a \<and> \<not> used_once uses (nat a) \<longrightarrow> nat a \<in> dom (locals st')"
      and b: "multi_use_slots block uses i' index st'" by simp_all
    from a have "multi_use_slots block uses index (Suc index) st'"
      unfolding multi_use_slots_def ref_operands_def by (auto simp: less_Suc_eq le_less)
    with b show ?thesis by (rule multi_use_slots_join)
  qed
next
  case (2 block uses index st)
  then show ?case by (auto simp: multi_use_slots_def)
next
  case (3 block uses arg rest index st)
  from 3(5) show ?case
  proof (cases rule: visitArgs_Cons_cases)
    case Const
    from 3(1)[OF Const] Const(1) show ?thesis by auto
  next
    case (Load l st1)
    from makeLocal_dom[OF Load(3)[symmetric]] have "nat arg \<in> dom (locals (unshift (GetLocal (int l)) st1))"
      by simp
    with visitArgs_dom_mono[OF Load(4)] have "nat arg \<in> dom (locals st')" by blast
    with 3(4)[OF Load] show ?thesis by auto
  next
    case (Inline ci cst)
    from 3(2)[OF Inline(1,2,4)] Inline(3) have "multi_use_slots block uses ci index cst" by simp
    with visitArgs_dom_mono[OF Inline(5)] have c: "multi_use_slots block uses ci index st'"
      by (rule multi_use_slots_mono[rotated -1])
    from 3(3)[OF Inline(1,2,4) refl Inline(5)] have
      r: "\<forall>a\<in>set rest. 0 \<le> a \<and> \<not> used_once uses (nat a) \<longrightarrow> nat a \<in> dom (locals st')"
      and d: "multi_use_slots block uses i' ci st'" by simp_all
    from d c have "multi_use_slots block uses i' index st'" by (rule multi_use_slots_join)
    with r Inline(2) show ?thesis by auto
  qed
qed

lemma emitLoop_multi_use:
  "emitLoop block uses index st = Inr st' \<Longrightarrow> multi_use_slots block uses 0 index st'"
proof (induction block uses index st arbitrary: st' rule: emitLoop.induct)
  case (1 block uses index st)
  from 1(2) show ?case
  proof (cases rule: emitLoop_cases)
    case Stop
    then show ?thesis by (simp add: multi_use_slots_def)
  next
    case (Step i' st1)
    from visit_multi_use(1)[OF Step(2)] Step(1) have "multi_use_slots block uses i' index st1"
      by simp
    with emitLoop_dom_mono[OF Step(3)] have "multi_use_slots block uses i' index st'"
      by (rule multi_use_slots_mono[rotated -1])
    with 1(1)[OF Step(1,2) refl Step(3)] show ?thesis by (rule multi_use_slots_join)
  qed
qed

lemma refs_in_append:
  "a \<le> b \<Longrightarrow> b \<le> c \<Longrightarrow> refs_in block a b + refs_in block b c = refs_in block a c"
  unfolding refs_in_def using map_segment_append[of a b c ref_operands block]
  by (metis concat_append mset_append)

lemma refs_in_single:
  "i < length block \<Longrightarrow> refs_in block i (Suc i) = mset (ref_operands (block ! i))"
  by (simp add: refs_in_def segment_single)

lemma refs_in_empty [simp]: "refs_in block a a = {#}"
  by (simp add: refs_in_def)

lemma mset_upt_snoc: "a \<le> b \<Longrightarrow> mset (map int [a..<Suc b]) = mset (map int [a..<b]) + {#int b#}"
  by simp

lemma mset_upt_append:
  "a \<le> b \<Longrightarrow> b \<le> c \<Longrightarrow> mset (map int [a..<b]) + mset (map int [b..<c]) = mset (map int [a..<c])"
  by (metis le_add_diff_inverse map_append mset_append upt_add_eq_append)

lemma inline_arg:
  assumes "0 < index" "used_once uses (nat arg) \<and> arg = int index - 1"
  shows "arg = int (index - 1)" "used_once uses (index - 1)"
proof -
  from assms have n: "nat arg = index - 1" by linarith
  from assms show "arg = int (index - 1)" by linarith
  from assms(2) have u: "used_once uses (nat arg)" by blast
  then show "used_once uses (index - 1)" unfolding n .
qed

lemma visit_accounts:
  "visit block uses index st = Inr (i', st') \<Longrightarrow>
     (\<exists>Lo. dom (locals st') = dom (locals st) \<union> nat ` set_mset Lo \<and>
        Lo + mset (map int [i'..<index]) = refs_in block i' (Suc index) \<and>
        (\<forall>p. i' \<le> p \<and> p < index \<longrightarrow> used_once uses p))"
  "visitArgs block uses as index st = Inr (i', st') \<Longrightarrow>
     (\<exists>Lo. dom (locals st') = dom (locals st) \<union> nat ` set_mset Lo \<and>
        Lo + mset (map int [i'..<index]) = mset (filter (\<lambda>a. 0 \<le> a) as) + refs_in block i' index \<and>
        (\<forall>p. i' \<le> p \<and> p < index \<longrightarrow> used_once uses p))"
proof (induction block uses index st and block uses as index st
    arbitrary: i' st' and i' st' rule: visit_visitArgs.induct)
  case (1 block uses index st)
  from 1(2) show ?case
  proof (cases rule: visit_cases)
    case Visit
    from visitArgs_le[OF Visit(2)] have le: "i' \<le> index" .
    from 1(1)[OF Visit] obtain Lo where
      Lo: "dom (locals st') = dom (locals st) \<union> nat ` set_mset Lo"
        "Lo + mset (map int [i'..<index]) =
           mset (filter (\<lambda>a. 0 \<le> a) (rev (drop (lower (block ! index)) (args (block ! index)))))
           + refs_in block i' index"
        "\<forall>p. i' \<le> p \<and> p < index \<longrightarrow> used_once uses p"
      by auto
    have "mset (filter (\<lambda>a. 0 \<le> a) (rev (drop (lower (block ! index)) (args (block ! index)))))
        = refs_in block index (Suc index)"
      using Visit(1) by (simp add: refs_in_single ref_operands_def)
    with Lo(2) refs_in_append[OF le, of "Suc index" block]
    have "Lo + mset (map int [i'..<index]) = refs_in block i' (Suc index)"
      by (simp add: ac_simps)
    with Lo(1,3) show ?thesis by blast
  qed
next
  case (2 block uses index st)
  have "dom (locals st) = dom (locals st) \<union> nat ` set_mset {#}" by simp
  with 2 show ?case by auto
next
  case (3 block uses arg rest index st)
  from 3(5) show ?case
  proof (cases rule: visitArgs_Cons_cases)
    case Const
    from 3(1)[OF Const] Const(1) show ?thesis by simp
  next
    case (Load l st1)
    from 3(4)[OF Load] obtain Lo where
      Lo: "dom (locals st') = dom (locals st1) \<union> nat ` set_mset Lo"
        "Lo + mset (map int [i'..<index]) = mset (filter (\<lambda>a. 0 \<le> a) rest) + refs_in block i' index"
        "\<forall>p. i' \<le> p \<and> p < index \<longrightarrow> used_once uses p"
      by auto
    from makeLocal_dom[OF Load(3)[symmetric]] Lo(1) have
      "dom (locals st') = dom (locals st) \<union> nat ` set_mset (Lo + {#arg#})" by auto
    moreover from Lo(2) Load(1) have "(Lo + {#arg#}) + mset (map int [i'..<index])
        = mset (filter (\<lambda>a. 0 \<le> a) (arg # rest)) + refs_in block i' index"
      by simp
    ultimately show ?thesis using Lo(3) by blast
  next
    case (Inline ci cst)
    from visit_le[OF Inline(4)] Inline(3) have ci: "ci \<le> index - 1" "ci \<le> index" by simp_all
    from visitArgs_le[OF Inline(5)] have le: "i' \<le> ci" .
    from 3(2)[OF Inline(1,2,4)] Inline(3) obtain Lo1 where
      Lo1: "dom (locals cst) = dom (locals st) \<union> nat ` set_mset Lo1"
        "Lo1 + mset (map int [ci..<index - 1]) = refs_in block ci index"
        "\<forall>p. ci \<le> p \<and> p < index - 1 \<longrightarrow> used_once uses p"
      by auto
    from 3(3)[OF Inline(1,2,4) refl Inline(5)] obtain Lo2 where
      Lo2: "dom (locals st') = dom (locals cst) \<union> nat ` set_mset Lo2"
        "Lo2 + mset (map int [i'..<ci]) = mset (filter (\<lambda>a. 0 \<le> a) rest) + refs_in block i' ci"
        "\<forall>p. i' \<le> p \<and> p < ci \<longrightarrow> used_once uses p"
      by auto
    note arg = inline_arg[OF Inline(3,2)]
    have "dom (locals st') = dom (locals st) \<union> nat ` set_mset (Lo1 + Lo2)"
      using Lo1(1) Lo2(1) by auto
    moreover have "(Lo1 + Lo2) + mset (map int [i'..<index])
        = mset (filter (\<lambda>a. 0 \<le> a) (arg # rest)) + refs_in block i' index"
    proof -
      define A where "A = mset (map int [i'..<ci])"
      define B where "B = mset (map int [ci..<index - 1])"
      define X where "X = {#int (index - 1)#}"
      define F where "F = mset (filter (\<lambda>a. 0 \<le> a) rest)"
      have e0: "mset (map int [i'..<index]) = A + B + X"
      proof -
        from Inline(3) have "[i'..<index] = [i'..<Suc (index - 1)]" by simp
        then have "mset (map int [i'..<index]) = mset (map int [i'..<index - 1]) + X"
          using mset_upt_snoc[of i' "index - 1"] le ci(1) by (simp only: X_def)
        with mset_upt_append[OF le ci(1)] show ?thesis by (simp only: A_def B_def)
      qed
      have e1: "Lo1 + B = refs_in block ci index" using Lo1(2) by (simp only: B_def)
      have e2: "Lo2 + A = F + refs_in block i' ci" using Lo2(2) by (simp only: A_def F_def)
      have e3: "refs_in block i' ci + refs_in block ci index = refs_in block i' index"
        by (rule refs_in_append[OF le ci(2)])
      have e4: "mset (filter (\<lambda>a. 0 \<le> a) (arg # rest)) = X + F"
        using Inline(1) arg(1) by (simp add: X_def F_def)
      have "(Lo1 + Lo2) + (A + B + X) = (Lo1 + B) + (Lo2 + A) + X" by (simp add: ac_simps)
      also have "\<dots> = refs_in block ci index + (F + refs_in block i' ci) + X"
        by (simp only: e1 e2)
      also have "\<dots> = (X + F) + (refs_in block i' ci + refs_in block ci index)"
        by (simp add: ac_simps)
      also have "\<dots> = (X + F) + refs_in block i' index" by (simp only: e3)
      finally show ?thesis by (simp only: e0 e4)
    qed
    moreover have "\<forall>p. i' \<le> p \<and> p < index \<longrightarrow> used_once uses p"
    proof (intro allI impI)
      fix p assume p: "i' \<le> p \<and> p < index"
      consider "p < ci" | "ci \<le> p" "p < index - 1" | "p = index - 1" using p by linarith
      then show "used_once uses p"
        using p Lo1(3) Lo2(3) arg(2) by cases auto
    qed
    ultimately show ?thesis by blast
  qed
qed


lemma emitLoopRoots_less:
  "p \<in> set (emitLoopRoots block uses index st) \<Longrightarrow> p < index"
proof (induction block uses index st rule: emitLoopRoots.induct)
  case (1 block uses index st)
  show ?case
  proof (cases "index > 0")
    case False
    with 1(2) show ?thesis by (subst (asm) emitLoopRoots.simps) simp
  next
    case True
    show ?thesis
    proof (cases "visit block uses (index - 1) (store_local (index - 1) st)")
      case (Inl e)
      from 1(2) True Inl show ?thesis by (subst (asm) emitLoopRoots.simps) simp
    next
      case (Inr r)
      obtain i' st1 where r: "r = (i', st1)" by (cases r)
      from visit_le[OF Inr[unfolded r]] True have le: "i' < index" by simp
      from 1(2) True Inr r have "p = index - 1 \<or> p \<in> set (emitLoopRoots block uses i' st1)"
        by (subst (asm) emitLoopRoots.simps) simp
      with 1(1)[OF True Inr[unfolded r] refl] le True show ?thesis by auto
    qed
  qed
qed

lemma inlined_positions_step:
  assumes "0 < index" "visit block uses (index - 1) (store_local (index - 1) st) = Inr (i', st1)"
  shows "inlined_positions block uses index st = inlined_positions block uses i' st1 @ [i'..<index - 1]"
proof -
  let ?R = "set (emitLoopRoots block uses index st)"
  let ?R' = "set (emitLoopRoots block uses i' st1)"
  from visit_le[OF assms(2)] have le: "i' \<le> index - 1" .
  have R: "?R = insert (index - 1) ?R'"
    using assms by (subst emitLoopRoots.simps) simp
  have below: "\<And>p. p \<in> ?R' \<Longrightarrow> p < i'" by (rule emitLoopRoots_less)
  have split: "[0..<index] = [0..<i'] @ [i'..<index - 1] @ [index - 1]"
  proof -
    from assms(1) have "[0..<index] = [0..<index - 1] @ [index - 1]"
      by (cases index) simp_all
    moreover from le have "[0..<index - 1] = [0..<i'] @ [i'..<index - 1]"
      by (metis le_add_diff_inverse upt_add_eq_append zero_le)
    ultimately show ?thesis by simp
  qed
  have a: "filter (\<lambda>p. p \<notin> ?R) [0..<i'] = filter (\<lambda>p. p \<notin> ?R') [0..<i']"
    using le R by (intro filter_cong) auto
  have b: "filter (\<lambda>p. p \<notin> ?R) [i'..<index - 1] = [i'..<index - 1]"
    using R below by (intro filter_True) fastforce
  have c: "filter (\<lambda>p. p \<notin> ?R) [index - 1] = []"
    using R by simp
  show ?thesis
    unfolding inlined_positions_def split filter_append a b c by simp
qed

lemma emitLoop_accounts:
  "emitLoop block uses index st = Inr fin \<Longrightarrow>
     \<exists>Lo. dom (locals fin) = dom (locals st) \<union> nat ` set_mset Lo \<and>
       Lo + mset (map int (inlined_positions block uses index st)) = refs_in block 0 index"
proof (induction block uses index st arbitrary: fin rule: emitLoop.induct)
  case (1 block uses index st)
  from 1(2) show ?case
  proof (cases rule: emitLoop_cases)
    case Stop
    have "dom (locals st) = dom (locals st) \<union> nat ` set_mset {#}" by simp
    with Stop show ?thesis by (auto simp: inlined_positions_def)
  next
    case (Step i' st1)
    from visit_le[OF Step(2)] Step(1) have le: "i' \<le> index - 1" "i' \<le> index" by simp_all
    from visit_accounts(1)[OF Step(2)] Step(1) obtain Ln where
      Ln: "dom (locals st1) = dom (locals st) \<union> nat ` set_mset Ln"
        "Ln + mset (map int [i'..<index - 1]) = refs_in block i' index"
      by auto
    from 1(1)[OF Step(1,2) refl Step(3)] obtain Lo where
      Lo: "dom (locals fin) = dom (locals st1) \<union> nat ` set_mset Lo"
        "Lo + mset (map int (inlined_positions block uses i' st1)) = refs_in block 0 i'"
      by blast
    have "dom (locals fin) = dom (locals st) \<union> nat ` set_mset (Lo + Ln)"
      using Lo(1) Ln(1) by auto
    moreover have "(Lo + Ln) + mset (map int (inlined_positions block uses index st))
        = refs_in block 0 index"
    proof -
      have "(Lo + Ln) + mset (map int (inlined_positions block uses index st))
          = (Lo + mset (map int (inlined_positions block uses i' st1)))
            + (Ln + mset (map int [i'..<index - 1]))"
        unfolding inlined_positions_step[OF Step(1,2)] by (simp add: ac_simps)
      also have "\<dots> = refs_in block 0 i' + refs_in block i' index"
        by (simp only: Lo(2) Ln(2))
      also have "\<dots> = refs_in block 0 index"
        by (rule refs_in_append[OF _ le(2)]) simp
      finally show ?thesis .
    qed
    ultimately show ?thesis by blast
  qed
qed

text \<open>
  Claim C8, as the code has it. From any state of the emitter's loop whose table is in
  order to the end of the loop: the table stays in order (one local per index, different
  locals for different indices, the locals being exactly the consecutive values
  100, ..., \<open>nextLocal - 1\<close> of the counter); an entry once made is never changed or
  removed and the counter only goes up; an index gets a local only if it is an index
  argument of the block; every index argument of the instructions still to visit whose
  use count is not 1 (it can never be compiled in place) has a local at the end; and the
  indices that get a local are exactly the values of the index arguments that \<open>visit\<close>
  reads in the instructions still to visit, less one argument for each position that is
  compiled in place (the argument at which \<open>visit\<close> calls itself): these are the index
  arguments that are loaded from a local. The counter starts at the constant 100: the
  locals are at least 100, which is above the source program's locals only when those
  are below 100.
\<close>

theorem slot_table:
  "slots_ok st \<Longrightarrow> emitLoop block uses index st = Inr st' \<Longrightarrow>
     slots_ok st' \<and> locals st \<subseteq>\<^sub>m locals st' \<and> nextLocal st \<le> nextLocal st' \<and>
     dom (locals st') \<subseteq> dom (locals st) \<union> {nat a |a. a \<in> set (concat (map ref_operands block))} \<and>
     {nat a |a. a \<in> set (concat (map ref_operands (take index block))) \<and> \<not> used_once uses (nat a)}
       \<subseteq> dom (locals st') \<and>
     (\<exists>Lo. dom (locals st') = dom (locals st) \<union> nat ` set_mset Lo \<and>
        Lo + mset (map int (inlined_positions block uses index st))
          = mset (concat (map ref_operands (take index block))))"
proof -
  assume ok: "slots_ok st" and l: "emitLoop block uses index st = Inr st'"
  from emitLoop_slots_step[OF l ok] have
    "slots_ok st' \<and> locals st \<subseteq>\<^sub>m locals st' \<and> nextLocal st \<le> nextLocal st' \<and>
     dom (locals st') \<subseteq> dom (locals st) \<union> {nat a |a. a \<in> set (concat (map ref_operands block))}"
    by (simp add: slots_step_def)
  moreover have "{nat a |a. a \<in> set (concat (map ref_operands (take index block))) \<and> \<not> used_once uses (nat a)}
       \<subseteq> dom (locals st')"
  proof
    fix k assume "k \<in> {nat a |a. a \<in> set (concat (map ref_operands (take index block))) \<and> \<not> used_once uses (nat a)}"
    then obtain a ins where a: "k = nat a" "\<not> used_once uses (nat a)" "ins \<in> set (take index block)"
      "a \<in> set (ref_operands ins)" by auto
    from a(3) obtain p where "p < length (take index block)" "take index block ! p = ins"
      by (auto simp: in_set_conv_nth)
    then have "p < index" "block ! p = ins" by simp_all
    with emitLoop_multi_use[OF l] a show "k \<in> dom (locals st')"
      unfolding multi_use_slots_def by blast
  qed
  moreover from emitLoop_accounts[OF l] have
    "\<exists>Lo. dom (locals st') = dom (locals st) \<union> nat ` set_mset Lo \<and>
        Lo + mset (map int (inlined_positions block uses index st))
          = mset (concat (map ref_operands (take index block)))"
    by (simp add: refs_in_def segment_0)
  ultimately show ?thesis by blast
qed

text \<open>
  Claim C8, witness: the whole loop on a block of two instructions, with the use counts
  of the block and from the initial state; instruction 0 is used twice and gets the
  local 100.
\<close>

theorem slot_table_witness:
  "countUses [\<lparr>kind = LocalGet, args = [-1]\<rparr>, \<lparr>kind = Add, args = [0, 0]\<rparr>] []
     = Inr [Num 2, Num 0] \<and>
   slots_ok init_state \<and>
   emitLoop [\<lparr>kind = LocalGet, args = [-1]\<rparr>, \<lparr>kind = Add, args = [0, 0]\<rparr>]
     [Num 2, Num 0] 2 init_state
     = Inr \<lparr>wasmCode = [GetLocal 0, TeeLocal 100, GetLocal 100, I32Add],
         locals = [0 \<mapsto> 100], nextLocal = 101\<rparr> \<and>
   slots_ok \<lparr>wasmCode = [GetLocal 0, TeeLocal 100, GetLocal 100, I32Add],
         locals = [0 \<mapsto> 100], nextLocal = 101\<rparr>"
proof -
  have h1: "slots_ok init_state"
    by (simp add: slots_ok_def init_state_def)
  have h0: "countUses [\<lparr>kind = LocalGet, args = [-1]\<rparr>, \<lparr>kind = Add, args = [0, 0]\<rparr>] []
     = Inr [Num 2, Num 0]"
    by (simp add: eval_simps)
  have h2: "emitLoop [\<lparr>kind = LocalGet, args = [-1]\<rparr>, \<lparr>kind = Add, args = [0, 0]\<rparr>]
     [Num 2, Num 0] 2 init_state
     = Inr \<lparr>wasmCode = [GetLocal 0, TeeLocal 100, GetLocal 100, I32Add],
         locals = [0 \<mapsto> 100], nextLocal = 101\<rparr>"
    by (simp add: eval_simps)
  from slot_table[OF h1 h2] h0 h1 h2 show ?thesis by blast
qed

text \<open>
  Claim C8 as stated fails where it puts every assigned local strictly above the
  locals of the source program: instruction 0 reads the source local 100 (its own
  operation is \<open>get_local 100\<close>) and is given the local 100.
\<close>

theorem slot_collision_counterexample:
  "emit [\<lparr>kind = LocalGet, args = [-101]\<rparr>, \<lparr>kind = Add, args = [0, 0]\<rparr>] =
     Inr \<lparr>wasmCode = [GetLocal 100, TeeLocal 100, GetLocal 100, I32Add],
       locals = [0 \<mapsto> 100], nextLocal = 101\<rparr>
   \<and> own_op \<lparr>kind = LocalGet, args = [-101]\<rparr> = GetLocal 100"
  by (simp add: eval_simps)

section \<open>Every position is visited once\<close>









section \<open>The rule of the tree recoverer\<close>

lemma recoverTree_cases [consumes 1, case_names Recover]:
  assumes "recoverTree block uses index = Inr (t, s, i')"
  obtains cs where "index < length block"
    "recoverArgs block uses (rev (args (block ! index))) index [] False = Inr (cs, s, i')"
    "t = Tree (kind (block ! index)) cs"
  using assms by (auto simp: recoverTree.simps split: if_splits sum.splits)

lemma recover_rule:
  "recoverTree block uses index = Inr (t, s, i') \<Longrightarrow>
     s = tree_names t \<and>
     (\<exists>cs. t = Tree (kind (block ! index)) cs \<and> length cs = length (args (block ! index)) \<and>
        (\<forall>j<length cs. operand_rule block uses index (args (block ! index) ! j)
            (drop (Suc j) cs) (cs ! j)))"
  "recoverArgs block uses as index cs0 st0 = Inr (cs', s', i') \<Longrightarrow>
     st0 = (\<exists>c\<in>set cs0. child_names c) \<Longrightarrow> index + sum_list (map cnodes cs0) = index0 \<Longrightarrow>
     length cs' = length as + length cs0 \<and> drop (length as) cs' = cs0 \<and>
     s' = (\<exists>c\<in>set cs'. child_names c) \<and>
     (\<forall>j<length as. operand_rule block uses index0 (rev as ! j) (drop (Suc j) cs') (cs' ! j))"
proof (induction block uses index and block uses as index cs0 st0
    arbitrary: t s i' and cs' s' i' index0 rule: recoverTree_recoverArgs.induct)
  case (1 block uses index)
  from 1(2) show ?case
  proof (cases rule: recoverTree_cases)
    case (Recover cs)
    from 1(1)[OF Recover(1,2), of index] have
      "length cs = length (args (block ! index))" "s = (\<exists>c\<in>set cs. child_names c)"
      "\<forall>j<length (args (block ! index)). operand_rule block uses index
          (rev (rev (args (block ! index))) ! j) (drop (Suc j) cs) (cs ! j)"
      by simp_all
    with Recover(3) show ?thesis by simp
  qed
next
  case (2 block uses index children stopped)
  then show ?case by auto
next
  case (3 block uses arg rest index children stopped)
  have last: "rev (arg # rest) ! length rest = arg"
    by (simp add: nth_append)
  have before: "rev (arg # rest) ! j = rev rest ! j" if "j < length rest" for j
    using that by (simp add: nth_append)
  have step: ?case
    if ih: "length cs' = length rest + length (c # children) \<and> drop (length rest) cs' = c # children \<and>
       s' = (\<exists>c\<in>set cs'. child_names c) \<and>
       (\<forall>j<length rest. operand_rule block uses index0 (rev rest ! j) (drop (Suc j) cs') (cs' ! j))"
      and c: "operand_rule block uses index0 arg children c" for c
  proof -
    from ih have d: "drop (length rest) cs' = c # children" by simp
    then have d': "drop (Suc (length rest)) cs' = children"
      by (metis drop_Suc tl_drop list.sel(3))
    from d ih have n: "cs' ! length rest = c"
      by (metis Cons_nth_drop_Suc add_Suc_right length_Cons less_add_Suc1 list.inject)
    have "operand_rule block uses index0 (rev (arg # rest) ! j) (drop (Suc j) cs') (cs' ! j)"
      if "j < length (arg # rest)" for j
    proof (cases "j < length rest")
      case True
      with ih before show ?thesis by simp
    next
      case False
      with that have "j = length rest" by simp
      with c d' n last show ?thesis by simp
    qed
    with ih d' show ?thesis by simp
  qed
  from 3(5) show ?case
  proof (cases rule: recoverArgs_Cons_cases)
    case Const
    have "stopped = (\<exists>c\<in>set (CNum (bitnot arg) # children). child_names c)"
      using 3(6) by simp
    moreover have "index + sum_list (map cnodes (CNum (bitnot arg) # children)) = index0"
      using 3(7) by simp
    ultimately have ih: "length cs' = length rest + length (CNum (bitnot arg) # children) \<and>
       drop (length rest) cs' = CNum (bitnot arg) # children \<and>
       s' = (\<exists>c\<in>set cs'. child_names c) \<and>
       (\<forall>j<length rest. operand_rule block uses index0 (rev rest ! j) (drop (Suc j) cs') (cs' ! j))"
      by (rule 3(1)[OF Const])
    have "operand_rule block uses index0 arg children (CNum (bitnot arg))"
      using Const(1) by (simp add: operand_rule_def)
    with ih show ?thesis by (rule step)
  next
    case Name
    have "True = (\<exists>c\<in>set (CName arg # children). child_names c)" by simp
    moreover have "index + sum_list (map cnodes (CName arg # children)) = index0"
      using 3(7) by simp
    ultimately have ih: "length cs' = length rest + length (CName arg # children) \<and>
       drop (length rest) cs' = CName arg # children \<and>
       s' = (\<exists>c\<in>set cs'. child_names c) \<and>
       (\<forall>j<length rest. operand_rule block uses index0 (rev rest ! j) (drop (Suc j) cs') (cs' ! j))"
      by (rule 3(4)[OF Name])
    from 3(7) have cur: "index0 - sum_list (map cnodes children) = index" by simp
    have "operand_rule block uses index0 arg children (CName arg)"
      using Name(1,2) 3(6) by (auto simp: operand_rule_def cur Let_def)
    with ih show ?thesis by (rule step)
  next
    case (Inline ct cst ci)
    from 3(2)[OF Inline(1,2,4)] have cst: "cst = tree_names ct" by simp
    from recover_shape(1)[OF Inline(4)] Inline(3) have ci: "ci + nodes ct = index" by simp
    have "(if cst then True else stopped) = (\<exists>c\<in>set (CTree ct # children). child_names c)"
      using 3(6) cst by simp
    moreover have "ci + sum_list (map cnodes (CTree ct # children)) = index0"
      using 3(7) ci by simp
    ultimately have ih: "length cs' = length rest + length (CTree ct # children) \<and>
       drop (length rest) cs' = CTree ct # children \<and>
       s' = (\<exists>c\<in>set cs'. child_names c) \<and>
       (\<forall>j<length rest. operand_rule block uses index0 (rev rest ! j) (drop (Suc j) cs') (cs' ! j))"
      by (rule 3(3)[OF Inline(1,2,4) refl refl Inline(5)])
    from 3(7) have cur: "index0 - sum_list (map cnodes children) = index" by simp
    have "operand_rule block uses index0 arg children (CTree ct)"
      using Inline(1,2,4) 3(6) by (auto simp: operand_rule_def cur Let_def)
    with ih show ?thesis by (rule step)
  qed
qed

text \<open>
  Claim C2, as the code has it. In every call of \<open>recoverTree\<close> that returns, the tree
  has one child per operand, and for every operand \<open>j\<close>: a negative argument becomes
  the constant; an index argument becomes a nested tree, recovered at the cursor less
  one, exactly when its use count is 1, it equals the cursor less one, and the flag
  \<open>stopped\<close> is clear, that is, no name occurs in the children to its right, nested
  trees included (an operand to the right became a name, or the recovery of an operand
  to the right returned with \<open>stopped\<close> set); otherwise it becomes the name of \<open>arg\<close>.
  From the first name on the flag stays set, and the call returns it set exactly when
  its tree holds a name.
\<close>

theorem operand_inlining_rule:
  "recoverTree block uses index = Inr (Tree k cs, stopped, i') \<Longrightarrow>
   j < length (args (block ! index)) \<Longrightarrow>
     length cs = length (args (block ! index)) \<and>
     operand_rule block uses index (args (block ! index) ! j) (drop (Suc j) cs) (cs ! j) \<and>
     stopped = (\<exists>c\<in>set cs. child_names c)"
  using recover_rule(1)[of block uses index "Tree k cs" stopped i'] by auto

text \<open>
  Claim C2, witness: the call at instruction 3 of a block of four, operand 0. The
  operand to its right was recovered as a nested tree that holds the name of
  instruction 0, so operand 0 becomes the name of instruction 1.
\<close>

theorem operand_inlining_rule_witness:
  "recoverTree [\<lparr>kind = LocalGet, args = [-1]\<rparr>, \<lparr>kind = LocalGet, args = [-2]\<rparr>,
       \<lparr>kind = Add, args = [0, -6]\<rparr>, \<lparr>kind = Add, args = [1, 2]\<rparr>]
     [Num 1, Num 1, Num 1, Num 0] 3
     = Inr (Tree Add [CName 1, CTree (Tree Add [CName 0, CNum 5])], True, 2)
   \<and> operand_rule [\<lparr>kind = LocalGet, args = [-1]\<rparr>, \<lparr>kind = LocalGet, args = [-2]\<rparr>,
       \<lparr>kind = Add, args = [0, -6]\<rparr>, \<lparr>kind = Add, args = [1, 2]\<rparr>]
     [Num 1, Num 1, Num 1, Num 0] 3 1 [CTree (Tree Add [CName 0, CNum 5])] (CName 1)"
proof -
  let ?b = "[\<lparr>kind = LocalGet, args = [-1]\<rparr>, \<lparr>kind = LocalGet, args = [-2]\<rparr>,
       \<lparr>kind = Add, args = [0, -6]\<rparr>, \<lparr>kind = Add, args = [1, 2]\<rparr>]"
  have h1: "recoverTree ?b [Num 1, Num 1, Num 1, Num 0] 3
     = Inr (Tree Add [CName 1, CTree (Tree Add [CName 0, CNum 5])], True, 2)"
    by (simp add: recover_eval_simps)
  have h2: "0 < length (args (?b ! 3))" by simp
  from operand_inlining_rule[OF h1 h2] h1 show ?thesis by simp
qed

text \<open>
  Claim C2 as stated fails on the same call: operand 0 is \<open>Ref(1)\<close>, its use count is 1,
  the cursor is 2 after instruction 2 was taken into the tree, and the only operand to
  its right was inlined, not turned into a name; yet operand 0 is not inlined.
\<close>

theorem nested_stop_counterexample:
  "countUses [\<lparr>kind = LocalGet, args = [-1]\<rparr>, \<lparr>kind = LocalGet, args = [-2]\<rparr>,
       \<lparr>kind = Add, args = [0, -6]\<rparr>, \<lparr>kind = Add, args = [1, 2]\<rparr>] []
     = Inr [Num 1, Num 1, Num 1, Num 0]
   \<and> recoverTree [\<lparr>kind = LocalGet, args = [-1]\<rparr>, \<lparr>kind = LocalGet, args = [-2]\<rparr>,
       \<lparr>kind = Add, args = [0, -6]\<rparr>, \<lparr>kind = Add, args = [1, 2]\<rparr>]
     [Num 1, Num 1, Num 1, Num 0] 3
     = Inr (Tree Add [CName 1, CTree (Tree Add [CName 0, CNum 5])], True, 2)
   \<and> \<not> operand_rule_stated [\<lparr>kind = LocalGet, args = [-1]\<rparr>, \<lparr>kind = LocalGet, args = [-2]\<rparr>,
       \<lparr>kind = Add, args = [0, -6]\<rparr>, \<lparr>kind = Add, args = [1, 2]\<rparr>]
     [Num 1, Num 1, Num 1, Num 0] 3 1 [CTree (Tree Add [CName 0, CNum 5])] (CName 1)"
  by (simp add: recover_eval_simps operand_rule_stated_def)

section \<open>The store after an instruction\<close>











subsection \<open>Which positions have a local when the loop reaches them\<close>







lemma count_list_take_le: "count_list (take n xs) x \<le> count_list xs x"
proof -
  have "count_list xs x = count_list (take n xs) x + count_list (drop n xs) x"
    by (metis append_take_drop_id count_list_append)
  then show ?thesis by simp
qed




















text \<open>
  A block in which the first operation of a position is fused later. Instruction 1 is
  \<open>get_local 100\<close>, a local of the source program, and has the local 101; instruction
  0 has the local 100. At position 1 the code is \<open>get_local 100\<close> right before the
  store \<open>tee_local 101\<close>; at position 0 the store for the local 100 takes that
  \<open>get_local 100\<close> for a load of its own local and turns it into \<open>tee_local 100\<close>.
\<close>

lemma fused_operation_example:
  "emit [\<lparr>kind = Add, args = [-2, -3]\<rparr>, \<lparr>kind = LocalGet, args = [-101]\<rparr>,
      \<lparr>kind = Add, args = [1, 1]\<rparr>, \<lparr>kind = Add, args = [0, 0]\<rparr>] =
     Inr \<lparr>wasmCode = [I32Const 1, I32Const 2, I32Add, TeeLocal 100, TeeLocal 101, GetLocal 101,
         I32Add, GetLocal 100, GetLocal 100, I32Add],
       locals = [0 \<mapsto> 100, 1 \<mapsto> 101], nextLocal = 102\<rparr>"
  by (simp add: eval_simps)

end
